theory Spec2Isabelle
  imports Main
begin

section \<open>Go values used by flag.go\<close>

text \<open>
  Go strings are byte sequences; \<open>string\<close> (a list of 8-bit characters) is the same
  thing, and \<open>len\<close>, indexing and slicing of the source count bytes.  A Go function
  either returns or panics; both are values here.
\<close>

datatype panic = IndexOutOfRange | SliceBoundsOutOfRange | InterfaceConversion

datatype 'a outcome = Panic panic | Return 'a

datatype num_err = ErrSyntax | ErrRange

text \<open>
  Errors.  \<open>Errorf m\<close> is the value of \<open>fmt.Errorf\<close> whose formatted message is \<open>m\<close>;
  \<open>NumError fn num e\<close> is strconv's \<open>*NumError{Func, Num, Err}\<close>; \<open>ErrHelpRequest\<close>
  is the package-level sentinel that \<open>helpValueParser\<close> returns; \<open>MarshalerError m\<close>
  is an error value that comes out of the code of a \<open>Marshaler\<close> implementation
  (\<open>m\<close> stands for whatever it is).  Go error values are compared by identity, so
  such a value is never one of those that flag.go creates itself, whatever it prints.
\<close>

datatype error =
    Errorf string
  | NumError string string num_err
  | ErrHelpRequest
  | MarshalerError string

text \<open>\<open>strings.HasPrefix\<close>: \<open>len(s) >= len(prefix) && s[0:len(prefix)] == prefix\<close>.\<close>

definition HasPrefix :: "string \<Rightarrow> string \<Rightarrow> bool" where
  "HasPrefix s p \<longleftrightarrow> length p \<le> length s \<and> take (length p) s = p"

text \<open>The slice expression \<open>s[i:j]\<close>; out of range it panics.\<close>

definition substr :: "string \<Rightarrow> nat \<Rightarrow> nat \<Rightarrow> string outcome" where
  "substr s i j =
     (if i \<le> j \<and> j \<le> length s then Return (take (j - i) (drop i s))
      else Panic SliceBoundsOutOfRange)"

subsection \<open>The reflected field behind a flag\<close>

text \<open>
  \<open>Flag.value\<close> is a \<open>reflect.Value\<close> for a field of the caller's struct.  flag.go looks
  at its type (is it \<open>bool\<close>, \<open>string\<close>, \<open>int\<close>, \<open>Help\<close>; does it implement
  \<open>Marshaler\<close>), at its kind (\<open>reflect.Slice\<close>, \<open>reflect.Ptr\<close>) and at the name of
  its type, and it writes the field.  The cases below are exactly those the code
  tells apart.  The contents of a field whose type the package does not know are of
  the type parameter \<open>'m\<close>.

  The types \<open>Help\<close> and \<open>Marshaler\<close> are declared outside flag.go.  \<open>Help\<close> is taken
  to be a named boolean type (so its kind is not \<open>reflect.Slice\<close>); \<open>Marshaler\<close> is
  the interface with the one method \<open>MarshalGoption(string) error\<close> that \<open>setValue\<close>
  calls.  Go's \<open>int\<close> is taken to be 64 bits wide.
\<close>

datatype kind = Slice | Ptr | OtherKind

text \<open>
  What a call of \<open>MarshalGoption\<close> on a fresh instance can do: return, leaving the
  instance in some state, with an error (\<open>Some m\<close>) or nil; panic with a value that
  is an \<open>error\<close>; or panic with any other value.
\<close>

datatype 'm marshal_result =
    MarshalReturns 'm "string option"
  | MarshalPanicsError string
  | MarshalPanicsOther

text \<open>
  A type that implements \<open>Marshaler\<close>: its kind, \<open>reflect.New(t).Elem()\<close> (the zero
  value), for a pointer type the zero value with \<open>reflect.New(t.Elem())\<close> stored in
  it (a pointer to a fresh pointee), and its method, as a function from the receiver
  and the argument to what the caller sees of the receiver afterwards.
\<close>

record 'm marshaler_type =
  Kind :: kind
  Zero :: 'm
  NewElem :: 'm
  MarshalGoption :: "'m \<Rightarrow> string \<Rightarrow> 'm marshal_result"

datatype 'm rvalue =
    BoolV bool
  | StringV string
  | IntV int
  | HelpV bool
  | MarshalerV "'m marshaler_type" 'm
  | OtherV kind string 'm

record 'm Flag =
  Short :: string
  Long :: string
  MutexGroups :: "string list"
  Description :: string
  Obligatory :: bool
  WasSpecified :: bool
  fvalue :: "'m rvalue"

section \<open>flag.go\<close>

definition Name :: "'m Flag \<Rightarrow> string" where
  "Name f =
     (if length (Long f) > 0 then ''--'' @ Long f
      else if length (Short f) > 0 then ''-'' @ Short f
      else ''<unspecified>'')"

definition NeedsExtraValue :: "'m Flag \<Rightarrow> bool" where
  "NeedsExtraValue f =
     (case fvalue f of BoolV b \<Rightarrow> False | HelpV h \<Rightarrow> False | _ \<Rightarrow> True)"

definition IsMulti :: "'m Flag \<Rightarrow> bool" where
  "IsMulti f =
     (case fvalue f of
        MarshalerV t x \<Rightarrow> Kind t = Slice
      | OtherV k n x \<Rightarrow> k = Slice
      | _ \<Rightarrow> False)"

definition isShort :: "string \<Rightarrow> bool" where
  "isShort arg \<longleftrightarrow> HasPrefix arg ''-'' \<and> \<not> HasPrefix arg ''--''"

definition isLong :: "string \<Rightarrow> bool" where
  "isLong arg \<longleftrightarrow> HasPrefix arg ''--''"

text \<open>
  \<open>(isShort(arg) && arg[1:2] == f.Short) || (isLong(arg) && arg[2:] == f.Long)\<close>,
  evaluated left to right with short-circuiting; the two slice expressions can panic.
\<close>

definition Handles :: "'m Flag \<Rightarrow> string \<Rightarrow> bool outcome" where
  "Handles f arg =
     (case (if isShort arg
            then (case substr arg 1 2 of
                    Panic p \<Rightarrow> Panic p
                  | Return s \<Rightarrow> Return (s = Short f))
            else Return False) of
        Panic p \<Rightarrow> Panic p
      | Return True \<Rightarrow> Return True
      | Return False \<Rightarrow>
          (if isLong arg
           then (case substr arg 2 (length arg) of
                   Panic p \<Rightarrow> Panic p
                 | Return s \<Rightarrow> Return (s = Long f))
           else Return False))"

subsection \<open>strconv.ParseInt(val, 10, 64)\<close>

text \<open>
  \<open>intValueParser\<close> calls the standard library's \<open>strconv.ParseInt\<close> with base 10
  and bit size 64.  The two functions below follow the library's \<open>ParseUint\<close> and
  \<open>ParseInt\<close> for these arguments: an empty string and a byte that is not a decimal
  digit are syntax errors (in base 10 a letter is a digit that is too large, an
  underscore is accepted in base 0 only); the unsigned value is accumulated in 64
  bits with the library's two overflow tests; a leading \<open>+\<close> or \<open>-\<close> is picked off
  first, and the magnitude is checked against \<open>1 << 63\<close>.
\<close>

definition is_digit :: "char \<Rightarrow> bool" where
  "is_digit c \<longleftrightarrow> (48::nat) \<le> of_char c \<and> of_char c \<le> (57::nat)"

definition digit_val :: "char \<Rightarrow> nat" where
  "digit_val c = of_char c - 48"

definition maxUint64 :: nat where
  "maxUint64 = 2 ^ 64 - 1"

fun ParseUint_loop :: "nat \<Rightarrow> string \<Rightarrow> nat \<times> num_err option" where
  "ParseUint_loop n [] = (n, None)"
| "ParseUint_loop n (c # cs) =
     (if \<not> is_digit c then (0, Some ErrSyntax)
      else if n \<ge> maxUint64 div 10 + 1 then (maxUint64, Some ErrRange)
      else
        (let n10 = (n * 10) mod 2 ^ 64;
             n1 = (n10 + digit_val c) mod 2 ^ 64
         in if n1 < n10 \<or> n1 > maxUint64 then (maxUint64, Some ErrRange)
            else ParseUint_loop n1 cs))"

definition ParseUint :: "string \<Rightarrow> nat \<times> num_err option" where
  "ParseUint s = (if s = [] then (0, Some ErrSyntax) else ParseUint_loop 0 s)"

text \<open>\<open>int64(x)\<close> of an integer: the value modulo \<open>2^64\<close>, read as two's complement.\<close>

definition wrap64 :: "int \<Rightarrow> int" where
  "wrap64 x = (x + 2 ^ 63) mod 2 ^ 64 - 2 ^ 63"

definition ParseInt :: "string \<Rightarrow> int \<times> error option" where
  "ParseInt s =
     (if s = [] then (0, Some (NumError ''ParseInt'' s ErrSyntax))
      else
        (let neg = (hd s = CHR ''-'');
             s1 = (if hd s = CHR ''+'' \<or> hd s = CHR ''-'' then tl s else s);
             (un, err) = ParseUint s1;
             cutoff = 2 ^ 63
         in if err \<noteq> None \<and> err \<noteq> Some ErrRange
            then (0, Some (NumError ''ParseInt'' s ErrSyntax))
            else if \<not> neg \<and> un \<ge> cutoff
            then (int (cutoff - 1), Some (NumError ''ParseInt'' s ErrRange))
            else if neg \<and> un > cutoff
            then (- int cutoff, Some (NumError ''ParseInt'' s ErrRange))
            else (let n = wrap64 (int un) in (if neg then wrap64 (- n) else n, None))))"

subsection \<open>Value parsers and setValue\<close>

text \<open>
  A \<open>valueParser\<close> gets the field and the raw string, may write the field, and
  returns an error or nil: here it returns the field afterwards and the error.
\<close>

type_synonym 'm valueParser = "'m rvalue \<Rightarrow> string \<Rightarrow> 'm rvalue \<times> error option"

definition boolValueParser :: "'m valueParser" where
  "boolValueParser v val = (BoolV True, None)"

definition stringValueParser :: "'m valueParser" where
  "stringValueParser v val = (StringV val, None)"

definition intValueParser :: "'m valueParser" where
  "intValueParser v val =
     (case ParseInt val of
        (intval, Some err) \<Rightarrow> (v, Some err)
      | (intval, None) \<Rightarrow> (IntV intval, None))"

definition helpValueParser :: "'m valueParser" where
  "helpValueParser v val = (v, Some ErrHelpRequest)"

text \<open>\<open>parserMap\<close>, keyed by the exact type of the field.\<close>

definition parserMap :: "'m rvalue \<Rightarrow> 'm valueParser option" where
  "parserMap v =
     (case v of
        BoolV b \<Rightarrow> Some boolValueParser
      | StringV s \<Rightarrow> Some stringValueParser
      | IntV i \<Rightarrow> Some intValueParser
      | HelpV h \<Rightarrow> Some helpValueParser
      | _ \<Rightarrow> None)"

text \<open>The \<open>Type().Name()\<close> that the unsupported-type message prints.\<close>

definition TypeName :: "'m rvalue \<Rightarrow> string" where
  "TypeName v =
     (case v of
        BoolV b \<Rightarrow> ''bool''
      | StringV s \<Rightarrow> ''string''
      | IntV i \<Rightarrow> ''int''
      | HelpV h \<Rightarrow> ''Help''
      | MarshalerV t x \<Rightarrow> []
      | OtherV k n x \<Rightarrow> n)"

text \<open>
  \<open>setValue\<close> returns the flag as it is afterwards and the error.  The deferred
  function turns a panic whose value is an \<open>error\<close> into the returned error (the
  assignment to the field has not happened then); on any other panic value its type
  assertion \<open>x.(error)\<close> panics in turn.
\<close>

definition setValue :: "'m Flag \<Rightarrow> string \<Rightarrow> ('m Flag \<times> error option) outcome" where
  "setValue f s =
     (case fvalue f of
        MarshalerV t old \<Rightarrow>
          (let newval = (if Kind t = Ptr then NewElem t else Zero t)
           in case MarshalGoption t newval s of
                MarshalReturns newval' err \<Rightarrow>
                  Return (f\<lparr>fvalue := MarshalerV t newval'\<rparr>,
                          map_option MarshalerError err)
              | MarshalPanicsError e \<Rightarrow> Return (f, Some (MarshalerError e))
              | MarshalPanicsOther \<Rightarrow> Panic InterfaceConversion)
      | v \<Rightarrow>
          (case parserMap v of
             Some parser \<Rightarrow>
               (case parser v s of (v', err) \<Rightarrow> Return (f\<lparr>fvalue := v'\<rparr>, err))
           | None \<Rightarrow>
               Return (f, Some (Errorf (''Unsupported flag type: '' @ TypeName v)))))"

subsection \<open>Parse\<close>

text \<open>
  \<open>Parse\<close> returns the argument list, the error, and (here) the flag as it is
  afterwards.  \<open>args[0]\<close> panics on an empty list.  In the cluster branch the first
  element of the caller's slice is overwritten in place.
\<close>

definition Parse ::
  "'m Flag \<Rightarrow> string list \<Rightarrow> (string list \<times> 'm Flag \<times> error option) outcome" where
  "Parse f args =
     (case args of
        [] \<Rightarrow> Panic IndexOutOfRange
      | param # rest \<Rightarrow>
          if NeedsExtraValue f \<and> (length args < 2 \<or> (isShort param \<and> length param > 2))
          then Return (args, f, Some (Errorf (''Flag '' @ Name f @ '' needs an argument'')))
          else if WasSpecified f \<and> \<not> IsMulti f
          then Return (args, f,
                 Some (Errorf (''Flag '' @ Name f @ '' can only be specified once'')))
          else
            (let (val, args') =
                   (if isShort param \<and> length param > 2
                    then ([], (''-'' @ drop 2 param) # rest)
                    else if NeedsExtraValue f
                    then (args ! 1, drop 2 args)
                    else ([], drop 1 args))
             in case setValue (f\<lparr>WasSpecified := True\<rparr>) val of
                  Panic p \<Rightarrow> Panic p
                | Return (f', err) \<Rightarrow> Return (args', f', err)))"

subsection \<open>Decimal numerals\<close>

text \<open>
  What the claims call a base-10 integer, independently of the parser: an optional
  sign \<open>+\<close> or \<open>-\<close> followed by one or more decimal digits, and the integer it
  denotes.
\<close>

definition dec_from :: "nat \<Rightarrow> string \<Rightarrow> nat" where
  "dec_from n ds = foldl (\<lambda>a c. a * 10 + digit_val c) n ds"

definition unsigned_part :: "string \<Rightarrow> string" where
  "unsigned_part s =
     (case s of [] \<Rightarrow> [] | c # cs \<Rightarrow> if c = CHR ''+'' \<or> c = CHR ''-'' then cs else s)"

definition signed_decimal :: "string \<Rightarrow> bool" where
  "signed_decimal s \<longleftrightarrow> unsigned_part s \<noteq> [] \<and> list_all is_digit (unsigned_part s)"

definition int_of_decimal :: "string \<Rightarrow> int" where
  "int_of_decimal s =
     (case s of
        [] \<Rightarrow> 0
      | c # cs \<Rightarrow>
          if c = CHR ''-'' then - int (dec_from 0 cs) else int (dec_from 0 (unsigned_part s)))"

subsection \<open>Example flags\<close>

text \<open>
  Flags used to run the definitions on concrete input: a flag over a field of the
  given contents, with a short and a long name.  \<open>text_type k\<close> is a \<open>Marshaler\<close> of kind \<open>k\<close>
  over strings whose method stores its argument in the instance and fails on the
  empty argument.  \<open>tags_type\<close> is a named slice type (\<open>type Tags []string\<close>) whose
  method has a value receiver: it is called on a copy of the fresh instance, so the
  instance \<open>setValue\<close> stores is the nil slice it created, and it returns nil.
\<close>

definition mk_flag :: "string \<Rightarrow> string \<Rightarrow> bool \<Rightarrow> 'm rvalue \<Rightarrow> 'm Flag" where
  "mk_flag s l spec v =
     \<lparr>Short = s, Long = l, MutexGroups = [], Description = [], Obligatory = False,
      WasSpecified = spec, fvalue = v\<rparr>"

definition text_type :: "kind \<Rightarrow> string marshaler_type" where
  "text_type k =
     \<lparr>Kind = k, Zero = [], NewElem = [],
      MarshalGoption = (\<lambda>inst s. MarshalReturns s (if s = [] then Some ''empty'' else None))\<rparr>"

definition tags_type :: "string list marshaler_type" where
  "tags_type =
     \<lparr>Kind = Slice, Zero = [], NewElem = [],
      MarshalGoption = (\<lambda>inst s. MarshalReturns inst None)\<rparr>"

section \<open>The tag parser\<close>

subsection \<open>strings.TrimSpace\<close>

text \<open>
  \<open>strings.TrimSpace\<close> removes leading and trailing white space as \<open>unicode.IsSpace\<close>
  defines it: the code points with the Unicode property White_Space.  A string is a
  byte sequence in UTF-8, trimming decodes one code point at a time from the front
  and then from the back, and a code point is decoded from the front (from the
  back) as a white space character exactly when its UTF-8 encoding is a prefix (a
  suffix) of the string.  The encodings, in code point order: U+0009 to U+000D,
  U+0020, U+0085, U+00A0, U+1680, U+2000 to U+200A, U+2028, U+2029, U+202F, U+205F,
  U+3000.
\<close>

definition space_encodings :: "string list" where
  "space_encodings =
     [[CHR 0x09], [CHR 0x0A], [CHR 0x0B], [CHR 0x0C], [CHR 0x0D], [CHR 0x20],
      [CHR 0xC2, CHR 0x85], [CHR 0xC2, CHR 0xA0],
      [CHR 0xE1, CHR 0x9A, CHR 0x80],
      [CHR 0xE2, CHR 0x80, CHR 0x80], [CHR 0xE2, CHR 0x80, CHR 0x81],
      [CHR 0xE2, CHR 0x80, CHR 0x82], [CHR 0xE2, CHR 0x80, CHR 0x83],
      [CHR 0xE2, CHR 0x80, CHR 0x84], [CHR 0xE2, CHR 0x80, CHR 0x85],
      [CHR 0xE2, CHR 0x80, CHR 0x86], [CHR 0xE2, CHR 0x80, CHR 0x87],
      [CHR 0xE2, CHR 0x80, CHR 0x88], [CHR 0xE2, CHR 0x80, CHR 0x89],
      [CHR 0xE2, CHR 0x80, CHR 0x8A],
      [CHR 0xE2, CHR 0x80, CHR 0xA8], [CHR 0xE2, CHR 0x80, CHR 0xA9],
      [CHR 0xE2, CHR 0x80, CHR 0xAF],
      [CHR 0xE2, CHR 0x81, CHR 0x9F],
      [CHR 0xE3, CHR 0x80, CHR 0x80]]"

definition leading_space :: "string \<Rightarrow> string option" where
  "leading_space s = find (\<lambda>e. take (length e) s = e) space_encodings"

definition trailing_space :: "string \<Rightarrow> string option" where
  "trailing_space s = find (\<lambda>e. drop (length s - length e) s = e) space_encodings"

lemma leading_space_Some:
  "leading_space s = Some e \<Longrightarrow> e \<in> set space_encodings \<and> e \<noteq> [] \<and> take (length e) s = e"
proof -
  assume a: "leading_space s = Some e"
  then have m: "e \<in> set space_encodings" and t: "take (length e) s = e"
    by (auto simp: leading_space_def find_Some_iff)
  from m have "e \<noteq> []" by (auto simp: space_encodings_def)
  with m t show ?thesis by simp
qed

lemma trailing_space_Some:
  "trailing_space s = Some e \<Longrightarrow>
   e \<in> set space_encodings \<and> e \<noteq> [] \<and> drop (length s - length e) s = e"
proof -
  assume a: "trailing_space s = Some e"
  then have m: "e \<in> set space_encodings" and t: "drop (length s - length e) s = e"
    by (auto simp: trailing_space_def find_Some_iff)
  from m have "e \<noteq> []" by (auto simp: space_encodings_def)
  with m t show ?thesis by simp
qed

function trim_left :: "string \<Rightarrow> string" where
  "trim_left s =
     (case leading_space s of
        None \<Rightarrow> s
      | Some e \<Rightarrow> trim_left (drop (length e) s))"
  by pat_completeness auto
termination
proof (relation "measure length")
  show "wf (measure length)" by simp
next
  fix s e :: string
  assume "leading_space s = Some e"
  from leading_space_Some[OF this] have e: "e \<noteq> []" and t: "take (length e) s = e"
    by simp_all
  then have "s \<noteq> []" by auto
  with e show "(drop (length e) s, s) \<in> measure length" by simp
qed

function trim_right :: "string \<Rightarrow> string" where
  "trim_right s =
     (case trailing_space s of
        None \<Rightarrow> s
      | Some e \<Rightarrow> trim_right (take (length s - length e) s))"
  by pat_completeness auto
termination
proof (relation "measure length")
  show "wf (measure length)" by simp
next
  fix s e :: string
  assume "trailing_space s = Some e"
  from trailing_space_Some[OF this] have e: "e \<noteq> []"
    and t: "drop (length s - length e) s = e" by simp_all
  then have "s \<noteq> []" by auto
  with e show "(take (length s - length e) s, s) \<in> measure length" by simp
qed

declare trim_left.simps [simp del] trim_right.simps [simp del]

definition TrimSpace :: "string \<Rightarrow> string" where
  "TrimSpace s = trim_right (trim_left s)"

subsection \<open>Regular expressions with leftmost-first matching\<close>

text \<open>
  Go's \<open>regexp\<close> returns the match that begins leftmost and, among those, the one a
  backtracking matcher finds first; the submatches are those of that match.  \<open>ms r p
  s c\<close> lists in that order all the ways in which \<open>r\<close> matches a prefix of the rest
  \<open>s\<close> of the text at byte offset \<open>p\<close>: each with the offset after the match, the
  rest of the text and the submatches (\<open>c\<close> before the match).  The first of two
  alternatives is preferred, and \<open>+\<close> and \<open>?\<close> prefer to match more.

  The matcher works on bytes where Go's works on code points.  For the expression of
  this package the two agree: its literals and its class \<open>[[:word:]-]\<close> are ASCII,
  and \<open>.\<close> and \<open>[^']\<close> accept every byte of a code point beyond ASCII.
\<close>

datatype rx =
    Lit char
  | Cls "char \<Rightarrow> bool"
  | Cat rx rx
  | Alt rx rx
  | Plus rx
  | Opt rx
  | Grp nat rx
  | Bot
  | Eot

type_synonym submatches = "(nat \<times> nat) option list"

function ms :: "rx \<Rightarrow> nat \<Rightarrow> string \<Rightarrow> submatches \<Rightarrow> (nat \<times> string \<times> submatches) list" where
  "ms (Lit a) p s c = (case s of [] \<Rightarrow> [] | x # xs \<Rightarrow> if x = a then [(Suc p, xs, c)] else [])"
| "ms (Cls P) p s c = (case s of [] \<Rightarrow> [] | x # xs \<Rightarrow> if P x then [(Suc p, xs, c)] else [])"
| "ms (Cat a b) p s c = concat (map (\<lambda>(p', s', c'). ms b p' s' c') (ms a p s c))"
| "ms (Alt a b) p s c = ms a p s c @ ms b p s c"
| "ms (Plus a) p s c =
     concat (map (\<lambda>(p', s', c').
                    (if length s' < length s then ms (Plus a) p' s' c' else []) @ [(p', s', c')])
                 (ms a p s c))"
| "ms (Opt a) p s c = ms a p s c @ [(p, s, c)]"
| "ms (Grp n a) p s c = map (\<lambda>(p', s', c'). (p', s', c'[n := Some (p, p')])) (ms a p s c)"
| "ms Bot p s c = (if p = 0 then [(p, s, c)] else [])"
| "ms Eot p s c = (if s = [] then [(p, s, c)] else [])"
  by pat_completeness auto
termination
  by (relation "measures [\<lambda>(r, p, s, c). size r, \<lambda>(r, p, s, c). length s]") auto

text \<open>The equation for \<open>+\<close> mentions \<open>ms (Plus a)\<close> again: it is unfolded by hand.\<close>

declare ms.simps(5) [simp del]

text \<open>
  \<open>FindStringSubmatchIndex\<close>: the leftmost start at which the expression matches,
  and the offsets of the whole match (index 0) and of the two groups, or nothing.
\<close>

fun find_from :: "rx \<Rightarrow> nat \<Rightarrow> string \<Rightarrow> submatches option" where
  "find_from r p s =
     (case ms (Grp 0 r) p s [None, None, None] of
        (p', s', c) # others \<Rightarrow> Some c
      | [] \<Rightarrow> (case s of [] \<Rightarrow> None | x # xs \<Rightarrow> find_from r (Suc p) xs))"

definition FindStringSubmatchIndex :: "rx \<Rightarrow> string \<Rightarrow> submatches option" where
  "FindStringSubmatchIndex r s = find_from r 0 s"

subsection \<open>optionRegexp\<close>

definition is_word :: "char \<Rightarrow> bool" where
  "is_word c \<longleftrightarrow>
     is_digit c \<or> (65::nat) \<le> of_char c \<and> of_char c \<le> (90::nat) \<or>
     (97::nat) \<le> of_char c \<and> of_char c \<le> (122::nat) \<or> c = CHR ''_''"

text \<open>\<open>[[:word:]-]\<close>\<close>

definition word_or_dash :: "char \<Rightarrow> bool" where
  "word_or_dash c \<longleftrightarrow> is_word c \<or> c = CHR ''-''"

text \<open>\<open>--?[[:word:]-]+\<close>\<close>

definition FLAG_REGEXP :: rx where
  "FLAG_REGEXP = Cat (Lit CHR ''-'') (Cat (Opt (Lit CHR ''-'')) (Plus (Cls word_or_dash)))"

text \<open>\<open>[[:word:]-]+\<close>\<close>

definition BOOL_OPTION_REGEXP :: rx where
  "BOOL_OPTION_REGEXP = Plus (Cls word_or_dash)"

text \<open>\<open>'((?:\\.|[^'])+)'\<close>; the dot does not match a newline, the negated class does.\<close>

definition QUOTED_STRING_REGEXP :: rx where
  "QUOTED_STRING_REGEXP =
     Cat (Lit CHR 0x27)
       (Cat (Grp 2 (Plus (Alt (Cat (Lit CHR 0x5C) (Cls (\<lambda>c. c \<noteq> CHR 0x0A)))
                               (Cls (\<lambda>c. c \<noteq> CHR 0x27)))))
            (Lit CHR 0x27))"

text \<open>\<open>[[:word:]-]+=\<close> followed by the quoted string\<close>

definition VALUE_OPTION_REGEXP :: rx where
  "VALUE_OPTION_REGEXP =
     Cat (Plus (Cls word_or_dash)) (Cat (Lit CHR ''='') QUOTED_STRING_REGEXP)"

text \<open>\<open>^(FLAG|BOOL_OPTION|VALUE_OPTION)(?:,|$)\<close>\<close>

definition optionRegexp :: rx where
  "optionRegexp =
     Cat Bot
       (Cat (Grp 1 (Alt FLAG_REGEXP (Alt BOOL_OPTION_REGEXP VALUE_OPTION_REGEXP)))
            (Alt (Lit CHR '','') Eot))"

subsection \<open>parseTag\<close>

text \<open>
  The struct \<open>flag\<close> that \<open>parseTag\<close> fills is declared outside the file; these are
  the fields \<open>parseTag\<close> writes, the others keeping their zero values.
\<close>

record flag =
  Short :: "string list"
  Long :: "string list"
  Description :: string
  MutexGroup :: string
  Accumulate :: bool
  Obligatory :: bool

text \<open>A slice expression whose bounds are a submatch; the bounds of a group that
  did not take part in the match are \<open>-1\<close>.\<close>

definition group_slice :: "string \<Rightarrow> (nat \<times> nat) option \<Rightarrow> string outcome" where
  "group_slice s g =
     (case g of None \<Rightarrow> Panic SliceBoundsOutOfRange | Some (i, j) \<Rightarrow> substr s i j)"

text \<open>What one turn of the loop does to the flag, by the matched option.\<close>

datatype step = Break | Fail error | Continue flag string

definition apply_option :: "flag \<Rightarrow> string \<Rightarrow> (nat \<times> nat) option \<Rightarrow> (error + flag) outcome" where
  "apply_option f option g2 =
     (if HasPrefix option ''--'' then Return (Inr (f\<lparr>flag.Long := flag.Long f @ [drop 2 option]\<rparr>))
      else if HasPrefix option ''-''
      then Return (Inr (f\<lparr>flag.Short := flag.Short f @ [drop 1 option]\<rparr>))
      else if HasPrefix option ''description=''
      then (case group_slice option g2 of
              Panic p \<Rightarrow> Panic p
            | Return d \<Rightarrow> Return (Inr (f\<lparr>flag.Description := d\<rparr>)))
      else if HasPrefix option ''mutexgroup=''
      then (case group_slice option g2 of
              Panic p \<Rightarrow> Panic p
            | Return d \<Rightarrow> Return (Inr (f\<lparr>MutexGroup := d\<rparr>)))
      else if option = ''accumulate'' then Return (Inr (f\<lparr>Accumulate := True\<rparr>))
      else if option = ''obligatory'' then Return (Inr (f\<lparr>flag.Obligatory := True\<rparr>))
      else Return (Inl (Errorf (''Unknown option '' @ option))))"

text \<open>
  The body of the loop: trim, stop on the empty rest, match, cut the option and the
  rest out of the tag, update the flag.
\<close>

definition parseTag_step :: "flag \<Rightarrow> string \<Rightarrow> step outcome" where
  "parseTag_step f tag0 =
     (let tag = TrimSpace tag0
      in if length tag = 0 then Return Break
         else
           (case FindStringSubmatchIndex optionRegexp tag of
              None \<Rightarrow>
                Return (Fail (Errorf
                  (''Could not find a valid flag definition at the beginning of ''
                     @ [CHR 0x22] @ tag @ [CHR 0x22])))
            | Some idx \<Rightarrow>
                (case group_slice tag (idx ! 1) of
                   Panic p \<Rightarrow> Panic p
                 | Return option \<Rightarrow>
                     (case (case idx ! 0 of
                              None \<Rightarrow> Panic SliceBoundsOutOfRange
                            | Some (i0, i1) \<Rightarrow> substr tag i1 (length tag)) of
                        Panic p \<Rightarrow> Panic p
                      | Return tag' \<Rightarrow>
                          (case apply_option f option (idx ! 2) of
                             Panic p \<Rightarrow> Panic p
                           | Return (Inl e) \<Rightarrow> Return (Fail e)
                           | Return (Inr f') \<Rightarrow> Return (Continue f' tag'))))))"

subsection \<open>What optionRegexp matches\<close>

text \<open>
  The match of \<open>optionRegexp\<close> written out: \<open>wrun t\<close> is the longest prefix of word
  characters and dashes, \<open>follow\<close> is the test \<open>(?:,|$)\<close> and \<open>flen\<close> what it
  consumes.  \<open>qloop\<close> scans the inside of a quoted string after its first element: at
  a quote the string ends if \<open>follow\<close> holds behind it; at a backslash the escape
  \<open>\\.\<close> is tried first and the backslash alone second; any other byte is taken.  It
  returns the number of bytes up to the closing quote of the first scan that
  succeeds.  These functions are shown below to compute \<open>FindStringSubmatchIndex
  optionRegexp\<close>.
\<close>

definition wrun :: "string \<Rightarrow> string" where
  "wrun t = takeWhile word_or_dash t"

definition follow :: "string \<Rightarrow> bool" where
  "follow s \<longleftrightarrow> (case s of [] \<Rightarrow> True | x # xs \<Rightarrow> x = CHR '','')"

definition flen :: "string \<Rightarrow> nat" where
  "flen s = (if s = [] then 0 else 1)"

fun qloop :: "string \<Rightarrow> nat option" where
  "qloop [] = None"
| "qloop (x # xs) =
     (if x = CHR 0x27 then (if follow xs then Some 0 else None)
      else
        (case (if x = CHR 0x5C
               then (case xs of
                       [] \<Rightarrow> None
                     | y # ys \<Rightarrow> if y \<noteq> CHR 0x0A then map_option (\<lambda>n. n + 2) (qloop ys) else None)
               else None) of
           Some n \<Rightarrow> Some n
         | None \<Rightarrow> map_option Suc (qloop xs)))"

definition qstart :: "string \<Rightarrow> nat option" where
  "qstart s = (case s of [] \<Rightarrow> None | x # xs \<Rightarrow> if x = CHR 0x27 then None else qloop s)"

definition match_tag :: "string \<Rightarrow> submatches option" where
  "match_tag t =
     (let k = length (wrun t); rest = drop k t
      in if k = 0 then None
         else if follow rest then Some [Some (0, k + flen rest), Some (0, k), None]
         else
           (case rest of
              x # y # body \<Rightarrow>
                if x = CHR ''='' \<and> y = CHR 0x27
                then (case qstart body of
                        None \<Rightarrow> None
                      | Some n \<Rightarrow>
                          Some [Some (0, k + n + 3 + flen (drop (Suc n) body)),
                                Some (0, k + n + 3), Some (k + 2, k + n + 2)])
                else None
            | _ \<Rightarrow> None))"

text \<open>
  For the proof that they do: the first element of a list of matches, the loop body
  of the quoted string, and what remains to be matched after the option.
\<close>

definition first :: "'a list \<Rightarrow> 'a option" where
  "first l = (case l of [] \<Rightarrow> None | x # xs \<Rightarrow> Some x)"

definition qbody :: rx where
  "qbody = Alt (Cat (Lit CHR 0x5C) (Cls (\<lambda>c. c \<noteq> CHR 0x0A))) (Cls (\<lambda>c. c \<noteq> CHR 0x27))"

text \<open>The follow test after group 1 has been recorded.\<close>

definition after_option :: "nat \<times> string \<times> submatches \<Rightarrow> (nat \<times> string \<times> submatches) list" where
  "after_option x =
     (case x of (p', s', c') \<Rightarrow>
        if follow s' then [(p' + flen s', drop (flen s') s', c'[1 := Some (0, p')])] else [])"

text \<open>The closing quote and the follow test after groups 2 and 1 have been recorded.\<close>

definition after_quoted ::
  "nat \<Rightarrow> nat \<times> string \<times> submatches \<Rightarrow> (nat \<times> string \<times> submatches) list" where
  "after_quoted p2 x =
     (case x of (p', s', c') \<Rightarrow>
        (case s' of
           [] \<Rightarrow> []
         | y # s'' \<Rightarrow>
             if y = CHR 0x27 \<and> follow s''
             then [(Suc p' + flen s'', drop (flen s'') s'',
                    c'[2 := Some (p2, p'), 1 := Some (0, Suc p')])]
             else []))"

text \<open>
  The loop ends: every match of \<open>optionRegexp\<close> takes at least one byte, so the rest
  of the tag gets shorter with every turn.
\<close>

fun minlen :: "rx \<Rightarrow> nat" where
  "minlen (Lit a) = 1"
| "minlen (Cls P) = 1"
| "minlen (Cat a b) = minlen a + minlen b"
| "minlen (Alt a b) = min (minlen a) (minlen b)"
| "minlen (Plus a) = minlen a"
| "minlen (Opt a) = 0"
| "minlen (Grp n a) = minlen a"
| "minlen Bot = 0"
| "minlen Eot = 0"

lemma consumes_trans:
  assumes "p \<le> p1 \<and> s1 = drop (p1 - p) s \<and> p1 - p \<le> length s \<and> m1 \<le> p1 - p \<and>
           length c1 = length (c :: submatches)"
    and "p1 \<le> p' \<and> s' = drop (p' - p1) s1 \<and> p' - p1 \<le> length s1 \<and> m2 \<le> p' - p1 \<and>
         length c' = length c1"
  shows "p \<le> p' \<and> s' = drop (p' - p) s \<and> p' - p \<le> length s \<and> m1 + m2 \<le> p' - p \<and>
         length c' = length c"
proof -
  from assms have le: "p \<le> p1" "p1 \<le> p'" by simp_all
  then have e: "p' - p1 + (p1 - p) = p' - p" by simp
  from assms have "s' = drop (p' - p1) (drop (p1 - p) s)" by simp
  then have s': "s' = drop (p' - p) s" by (simp only: drop_drop e)
  from assms have "p' - p1 \<le> length s - (p1 - p)" by simp
  with assms have l: "p' - p \<le> length s" using le by linarith
  from assms have "m1 + m2 \<le> (p1 - p) + (p' - p1)" by linarith
  with le have m: "m1 + m2 \<le> p' - p" by linarith
  from assms have "length c' = length c" by simp
  with le s' l m show ?thesis by simp
qed

lemma ms_Plus_mem:
  "(p', s', c') \<in> set (ms (Plus a) p s c) \<longleftrightarrow>
     (\<exists>p1 s1 c1. (p1, s1, c1) \<in> set (ms a p s c) \<and>
        ((length s1 < length s \<and> (p', s', c') \<in> set (ms (Plus a) p1 s1 c1)) \<or>
         (p', s', c') = (p1, s1, c1)))"
  by (subst ms.simps(5)) (auto split: if_splits)

lemma ms_consumes:
  "(p', s', c') \<in> set (ms r p s c) \<Longrightarrow>
   p \<le> p' \<and> s' = drop (p' - p) s \<and> p' - p \<le> length s \<and> minlen r \<le> p' - p \<and>
   length c' = length c"
proof (induction r p s c arbitrary: p' s' c' rule: ms.induct)
  case (1 a p s c)
  then show ?case by (cases s) (simp_all split: if_splits)
next
  case (2 P p s c)
  then show ?case by (cases s) (simp_all split: if_splits)
next
  case (3 a b p s c)
  from "3.prems" obtain p1 s1 c1 where m1: "(p1, s1, c1) \<in> set (ms a p s c)"
    and m2: "(p', s', c') \<in> set (ms b p1 s1 c1)" by auto
  from consumes_trans[OF "3.IH"(1)[OF m1] "3.IH"(2)[OF m1 refl refl m2]]
  show ?case by simp
next
  case (4 a b p s c)
  from "4.prems" consider "(p', s', c') \<in> set (ms a p s c)" | "(p', s', c') \<in> set (ms b p s c)"
    by auto
  then show ?case
  proof cases
    case 1
    from "4.IH"(1)[OF 1] show ?thesis by (simp add: min_le_iff_disj)
  next
    case 2
    from "4.IH"(2)[OF 2] show ?thesis by (simp add: min_le_iff_disj)
  qed
next
  case (5 a p s c)
  from "5.prems" obtain p1 s1 c1 where m1: "(p1, s1, c1) \<in> set (ms a p s c)"
    and m2: "(length s1 < length s \<and> (p', s', c') \<in> set (ms (Plus a) p1 s1 c1)) \<or>
             (p', s', c') = (p1, s1, c1)"
    by (auto simp: ms_Plus_mem[of p' s' c' a p s c])
  note a = "5.IH"(1)[OF m1]
  from m2 show ?case
  proof
    assume "(p', s', c') = (p1, s1, c1)"
    with a show ?thesis by simp
  next
    assume b: "length s1 < length s \<and> (p', s', c') \<in> set (ms (Plus a) p1 s1 c1)"
    then have l: "length s1 < length s" and m3: "(p', s', c') \<in> set (ms (Plus a) p1 s1 c1)"
      by simp_all
    from consumes_trans[OF a "5.IH"(2)[OF m1 refl refl l m3]]
    show ?thesis by simp
  qed
next
  case (6 a p s c)
  from "6.prems" consider "(p', s', c') \<in> set (ms a p s c)" | "(p', s', c') = (p, s, c)"
    by auto
  then show ?case
  proof cases
    case 1
    from "6.IH"[OF 1] show ?thesis by simp
  next
    case 2
    then show ?thesis by simp
  qed
next
  case (7 n a p s c)
  from "7.prems" obtain c0 where m: "(p', s', c0) \<in> set (ms a p s c)"
    and c': "c' = c0[n := Some (p, p')]" by auto
  from "7.IH"[OF m] c' show ?case by simp
next
  case (8 p s c)
  then show ?case by (simp split: if_splits)
next
  case (9 p s c)
  then show ?case by (simp split: if_splits)
qed

lemma find_from_whole:
  "find_from r p s = Some c \<Longrightarrow>
   \<exists>i j. c ! 0 = Some (i, j) \<and> p \<le> i \<and> i + minlen r \<le> j \<and> j \<le> p + length s \<and>
         length c = 3"
proof (induction r p s arbitrary: c rule: find_from.induct)
  case (1 r p s)
  show ?case
  proof (cases "ms (Grp 0 r) p s [None, None, None]")
    case Nil
    with "1.prems" obtain x xs where s: "s = x # xs" and f: "find_from r (Suc p) xs = Some c"
      by (cases s) auto
    from "1.IH"[OF Nil s f] obtain i j where
      "c ! 0 = Some (i, j) \<and> Suc p \<le> i \<and> i + minlen r \<le> j \<and> j \<le> Suc p + length xs \<and>
       length c = 3" by blast
    with s show ?thesis by simp
  next
    case (Cons m ms')
    obtain p' s' c' where m: "m = (p', s', c')" by (cases m) auto
    with Cons "1.prems" have c: "c' = c" by simp
    from Cons m have "(p', s', c') \<in> set (ms (Grp 0 r) p s [None, None, None])" by simp
    then obtain c0 where in0: "(p', s', c0) \<in> set (ms r p s [None, None, None])"
      and c': "c' = c0[0 := Some (p, p')]" by auto
    from ms_consumes[OF in0]
    have b: "p \<le> p' \<and> p' - p \<le> length s \<and> minlen r \<le> p' - p \<and> length c0 = 3"
      by simp
    from b have "c0[0 := Some (p, p')] ! 0 = Some (p, p')" by simp
    with c c' have "c ! 0 = Some (p, p')" by simp
    with b c c' show ?thesis by auto
  qed
qed

lemma trim_left_None: "leading_space s = None \<Longrightarrow> trim_left s = s"
  by (simp add: trim_left.simps)

lemma trim_left_Some: "leading_space s = Some e \<Longrightarrow> trim_left s = trim_left (drop (length e) s)"
  by (subst trim_left.simps) simp

lemma trim_right_None: "trailing_space s = None \<Longrightarrow> trim_right s = s"
  by (simp add: trim_right.simps)

lemma trim_right_Some:
  "trailing_space s = Some e \<Longrightarrow> trim_right s = trim_right (take (length s - length e) s)"
  by (subst trim_right.simps) simp

lemma trim_left_length: "length (trim_left s) \<le> length s"
proof (induction s rule: trim_left.induct)
  case (1 s)
  show ?case
  proof (cases "leading_space s")
    case None
    then show ?thesis by (simp add: trim_left_None)
  next
    case (Some e)
    from "1.IH"[OF Some] show ?thesis by (simp add: trim_left_Some[OF Some])
  qed
qed

lemma trim_right_length: "length (trim_right s) \<le> length s"
proof (induction s rule: trim_right.induct)
  case (1 s)
  show ?case
  proof (cases "trailing_space s")
    case None
    then show ?thesis by (simp add: trim_right_None)
  next
    case (Some e)
    from "1.IH"[OF Some] show ?thesis by (simp add: trim_right_Some[OF Some])
  qed
qed

lemma TrimSpace_length: "length (TrimSpace s) \<le> length s"
  unfolding TrimSpace_def using trim_right_length[of "trim_left s"] trim_left_length[of s]
  by linarith

lemma minlen_optionRegexp: "minlen optionRegexp = 1"
  by (simp add: optionRegexp_def FLAG_REGEXP_def BOOL_OPTION_REGEXP_def
        VALUE_OPTION_REGEXP_def QUOTED_STRING_REGEXP_def)

lemma parseTag_step_shorter:
  assumes "parseTag_step f tag = Return (Continue f' tag')"
  shows "length tag' < length tag"
proof -
  let ?t = "TrimSpace tag"
  from assms obtain idx where idx: "FindStringSubmatchIndex optionRegexp ?t = Some idx"
    by (auto simp: parseTag_step_def Let_def split: if_splits option.splits)
  from find_from_whole[OF idx[unfolded FindStringSubmatchIndex_def]] obtain i j
    where w: "idx ! 0 = Some (i, j)" "i + 1 \<le> j" "j \<le> length ?t"
    by (auto simp: minlen_optionRegexp)
  from assms idx w have "tag' = drop j ?t"
    by (auto simp: parseTag_step_def Let_def substr_def
        split: if_splits option.splits outcome.splits sum.splits)
  with w have "length tag' < length ?t" by simp
  with TrimSpace_length[of tag] show ?thesis by simp
qed

function parseTag_loop :: "flag \<Rightarrow> string \<Rightarrow> (error + flag) outcome" where
  "parseTag_loop f tag =
     (case parseTag_step f tag of
        Panic p \<Rightarrow> Panic p
      | Return Break \<Rightarrow> Return (Inr f)
      | Return (Fail e) \<Rightarrow> Return (Inl e)
      | Return (Continue f' tag') \<Rightarrow> parseTag_loop f' tag')"
  by pat_completeness auto
termination
  by (relation "measure (\<lambda>(f, tag). length tag)") (auto dest: parseTag_step_shorter)

declare parseTag_loop.simps [simp del]

text \<open>The flag that \<open>parseTag\<close> starts from: two empty slices, zero values elsewhere.\<close>

definition new_flag :: flag where
  "new_flag =
     \<lparr>Short = [], Long = [], Description = [], MutexGroup = [], Accumulate = False,
      Obligatory = False\<rparr>"

definition parseTag :: "string \<Rightarrow> (error + flag) outcome" where
  "parseTag tag = parseTag_loop new_flag tag"

subsection \<open>The loop, token by token\<close>

text \<open>
  \<open>next_token t\<close> is what one turn of the loop cuts out of the trimmed tag \<open>t\<close>: the
  option (submatch 1), the quoted value (submatch 2, empty when the group did not
  take part) and the rest of the tag behind the match; nothing when \<open>optionRegexp\<close>
  does not match.  \<open>apply_token\<close> is the chain of tests on the option, with the value
  already cut out.  \<open>recognized\<close> says that the chain does not end in its default
  branch.
\<close>

definition next_token :: "string \<Rightarrow> (string \<times> string \<times> string) option" where
  "next_token t =
     (case FindStringSubmatchIndex optionRegexp t of
        None \<Rightarrow> None
      | Some idx \<Rightarrow>
          (case (idx ! 0, idx ! 1) of
             (Some (i0, i1), Some (j0, j1)) \<Rightarrow>
               Some (take (j1 - j0) (drop j0 t),
                     (case idx ! 2 of None \<Rightarrow> [] | Some (a, b) \<Rightarrow> take (b - a) (drop a t)),
                     drop i1 t)
           | _ \<Rightarrow> None))"

definition recognized :: "string \<Rightarrow> bool" where
  "recognized option \<longleftrightarrow>
     HasPrefix option ''-'' \<or> HasPrefix option ''description='' \<or>
     HasPrefix option ''mutexgroup='' \<or> option = ''accumulate'' \<or> option = ''obligatory''"

definition apply_token :: "flag \<Rightarrow> string \<Rightarrow> string \<Rightarrow> error + flag" where
  "apply_token f option v =
     (if HasPrefix option ''--'' then Inr (f\<lparr>flag.Long := flag.Long f @ [drop 2 option]\<rparr>)
      else if HasPrefix option ''-'' then Inr (f\<lparr>flag.Short := flag.Short f @ [drop 1 option]\<rparr>)
      else if HasPrefix option ''description='' then Inr (f\<lparr>flag.Description := v\<rparr>)
      else if HasPrefix option ''mutexgroup='' then Inr (f\<lparr>MutexGroup := v\<rparr>)
      else if option = ''accumulate'' then Inr (f\<lparr>Accumulate := True\<rparr>)
      else if option = ''obligatory'' then Inr (f\<lparr>flag.Obligatory := True\<rparr>)
      else Inl (Errorf (''Unknown option '' @ option)))"

definition no_match_error :: "string \<Rightarrow> error" where
  "no_match_error t =
     Errorf (''Could not find a valid flag definition at the beginning of ''
               @ [CHR 0x22] @ t @ [CHR 0x22])"

lemma next_token_shorter:
  assumes "next_token t = Some (option, v, rest)"
  shows "length rest < length t"
proof -
  from assms obtain idx where idx: "FindStringSubmatchIndex optionRegexp t = Some idx"
    by (auto simp: next_token_def split: option.splits)
  from find_from_whole[OF idx[unfolded FindStringSubmatchIndex_def]] obtain i j
    where w: "idx ! 0 = Some (i, j)" "i + 1 \<le> j" "j \<le> length t"
    by (auto simp: minlen_optionRegexp)
  with assms idx have "rest = drop j t"
    by (auto simp: next_token_def split: option.splits prod.splits)
  with w show ?thesis by simp
qed

function scan :: "string \<Rightarrow> (string \<times> string) list" where
  "scan tag =
     (let t = TrimSpace tag
      in if t = [] then []
         else (case next_token t of
                 None \<Rightarrow> []
               | Some (option, v, rest) \<Rightarrow> (option, v) # scan rest))"
  by pat_completeness auto
termination
proof (relation "measure length")
  show "wf (measure length)" by simp
next
  fix tag t :: string and x option y v rest
  assume "t = TrimSpace tag" and "next_token t = Some x" and "(option, y) = x" and "(v, rest) = y"
  then have "next_token (TrimSpace tag) = Some (option, v, rest)" by simp
  from next_token_shorter[OF this] TrimSpace_length[of tag]
  show "(rest, tag) \<in> measure length" by simp
qed

declare scan.simps [simp del]

text \<open>The descriptor that a list of options and values leaves behind.\<close>

definition short_names :: "(string \<times> string) list \<Rightarrow> string list" where
  "short_names ts =
     map (\<lambda>(option, v). drop 1 option)
       (filter (\<lambda>(option, v). HasPrefix option ''-'' \<and> \<not> HasPrefix option ''--'') ts)"

definition long_names :: "(string \<times> string) list \<Rightarrow> string list" where
  "long_names ts =
     map (\<lambda>(option, v). drop 2 option) (filter (\<lambda>(option, v). HasPrefix option ''--'') ts)"

definition last_value :: "string \<Rightarrow> string \<Rightarrow> (string \<times> string) list \<Rightarrow> string" where
  "last_value key d ts =
     (case filter (\<lambda>(option, v). HasPrefix option key) ts of
        [] \<Rightarrow> d
      | vs \<Rightarrow> snd (last vs))"

definition has_option :: "string \<Rightarrow> (string \<times> string) list \<Rightarrow> bool" where
  "has_option name ts \<longleftrightarrow> (\<exists>v. (name, v) \<in> set ts)"

inductive visits :: "flag \<Rightarrow> string \<Rightarrow> flag \<Rightarrow> string \<Rightarrow> bool" for f0 tag where
  visits_start: "visits f0 tag f0 tag"
| visits_next:
    "visits f0 tag f r \<Longrightarrow> TrimSpace r \<noteq> [] \<Longrightarrow>
     next_token (TrimSpace r) = Some (option, v, rest) \<Longrightarrow>
     apply_token f option v = Inr f' \<Longrightarrow> visits f0 tag f' rest"

definition unparseable :: "string \<Rightarrow> error \<Rightarrow> bool" where
  "unparseable r e \<longleftrightarrow>
     TrimSpace r \<noteq> [] \<and> FindStringSubmatchIndex optionRegexp (TrimSpace r) = None \<and>
     e = Errorf (''Could not find a valid flag definition at the beginning of ''
                   @ [CHR 0x22] @ TrimSpace r @ [CHR 0x22])"

definition unrecognized :: "string \<Rightarrow> error \<Rightarrow> bool" where
  "unrecognized r e \<longleftrightarrow>
     TrimSpace r \<noteq> [] \<and>
     (\<exists>option v rest. next_token (TrimSpace r) = Some (option, v, rest) \<and>
        \<not> HasPrefix option ''-'' \<and> \<not> HasPrefix option ''description='' \<and>
        \<not> HasPrefix option ''mutexgroup='' \<and> option \<noteq> ''accumulate'' \<and>
        option \<noteq> ''obligatory'' \<and> e = Errorf (''Unknown option '' @ option))"

section \<open>The match of optionRegexp, computed\<close>

lemma ms_Plus_Cls_cont:
  assumes F: "\<And>p' s' c'. s' \<noteq> [] \<Longrightarrow> P (hd s') \<Longrightarrow> F (p', s', c') = []"
  shows "concat (map F (ms (Plus (Cls P)) p s c)) =
     (if takeWhile P s = [] then []
      else F (p + length (takeWhile P s), drop (length (takeWhile P s)) s, c))"
proof (induction s arbitrary: p)
  case Nil
  show ?case by (simp add: ms.simps(5))
next
  case (Cons x xs)
  show ?case
  proof (cases "P x")
    case False
    then show ?thesis by (simp add: ms.simps(5))
  next
    case True
    have u: "ms (Plus (Cls P)) p (x # xs) c = ms (Plus (Cls P)) (Suc p) xs c @ [(Suc p, xs, c)]"
      using True by (simp add: ms.simps(5)[of "Cls P" p "x # xs" c])
    show ?thesis
    proof (cases "takeWhile P xs = []")
      case e: True
      with Cons.IH[of "Suc p"] True u show ?thesis by simp
    next
      case ne: False
      then have "xs \<noteq> []" and "P (hd xs)" by (cases xs; auto split: if_splits)+
      then have "F (Suc p, xs, c) = []" by (rule F)
      with Cons.IH[of "Suc p"] True u ne show ?thesis by simp
    qed
  qed
qed

lemma ms_follow:
  "ms (Alt (Lit CHR '','') Eot) p s c =
     (if follow s then [(p + flen s, drop (flen s) s, c)] else [])"
  by (cases s) (auto simp: follow_def flen_def)

lemma first_simps [simp]: "first [] = None" "first (x # xs) = Some x"
  by (simp_all add: first_def)

lemma first_append: "first (xs @ ys) = (case first xs of None \<Rightarrow> first ys | Some x \<Rightarrow> Some x)"
  by (cases xs) simp_all

lemma ms_qbody:
  "ms qbody p s c =
     (case s of
        [] \<Rightarrow> []
      | x # xs \<Rightarrow>
          (if x = CHR 0x5C
           then (case xs of [] \<Rightarrow> [] | y # ys \<Rightarrow> if y \<noteq> CHR 0x0A then [(p + 2, ys, c)] else [])
           else []) @
          (if x \<noteq> CHR 0x27 then [(Suc p, xs, c)] else []))"
  by (cases s; cases "tl s") (auto simp: qbody_def)

lemma quoted_unfold:
  "concat (map G (ms (Plus qbody) p (x # xs) c)) =
     (if x = CHR 0x5C
      then (case xs of
              [] \<Rightarrow> []
            | y # ys \<Rightarrow>
                if y \<noteq> CHR 0x0A
                then concat (map G (ms (Plus qbody) (p + 2) ys c)) @ G (p + 2, ys, c)
                else [])
      else []) @
     (if x \<noteq> CHR 0x27
      then concat (map G (ms (Plus qbody) (Suc p) xs c)) @ G (Suc p, xs, c)
      else [])"
  by (subst ms.simps(5)) (auto simp: ms_qbody split: list.splits)

lemma quoted_Nil: "concat (map G (ms (Plus qbody) p [] c)) = []"
  by (subst ms.simps(5)) (simp add: ms_qbody)

lemma quoted_first:
  assumes G: "\<And>p' s'. G (p', s', c) =
      (if s' \<noteq> [] \<and> hd s' = CHR 0x27 \<and> follow (tl s') then [g p' s'] else [])"
  shows "first (concat (map G (ms (Plus qbody) p s c)) @ G (p, s, c)) =
           map_option (\<lambda>m. g (p + m) (drop m s)) (qloop s)"
proof (induction s arbitrary: p rule: qloop.induct)
  case 1
  show ?case by (simp add: quoted_Nil G)
next
  case (2 x xs)
  let ?L = "concat (map G (ms (Plus qbody) p (x # xs) c))"
  let ?A = "\<lambda>ys. concat (map G (ms (Plus qbody) (p + 2) ys c)) @ G (p + 2, ys, c)"
  let ?B = "concat (map G (ms (Plus qbody) (Suc p) xs c)) @ G (Suc p, xs, c)"
  let ?E = "if x = CHR 0x5C
            then (case xs of
                    [] \<Rightarrow> None
                  | y # ys \<Rightarrow>
                      if y \<noteq> CHR 0x0A then map_option (\<lambda>n. n + 2) (qloop ys) else None)
            else None"
  show ?case
  proof (cases "x = CHR 0x27")
    case True
    then show ?thesis by (simp add: quoted_unfold G)
  next
    case nq: False
    then have g0: "G (p, x # xs, c) = []" by (simp add: G)
    have q: "qloop (x # xs) = (case ?E of Some n \<Rightarrow> Some n | None \<Rightarrow> map_option Suc (qloop xs))"
      using nq by (simp only: qloop.simps if_False)
    have tail: "first ?B = map_option (\<lambda>m. g (p + Suc m) (drop (Suc m) (x # xs))) (qloop xs)"
      if "?E = None"
      using "2.IH"(2)[OF nq that, of "Suc p"] by simp
    have fallback: "first (?L @ G (p, x # xs, c)) =
        map_option (\<lambda>m. g (p + m) (drop m (x # xs))) (qloop (x # xs))"
      if e: "?E = None" and l: "?L = ?B"
    proof -
      have "first (?L @ G (p, x # xs, c)) = first ?B" unfolding g0 l by simp
      also have "\<dots> = map_option (\<lambda>m. g (p + Suc m) (drop (Suc m) (x # xs))) (qloop xs)"
        by (rule tail[OF e])
      also have "\<dots> = map_option (\<lambda>m. g (p + m) (drop m (x # xs))) (qloop (x # xs))"
        unfolding q e by (simp add: option.map_comp comp_def)
      finally show ?thesis .
    qed
    show ?thesis
    proof (cases "x = CHR 0x5C \<and> (\<exists>y ys. xs = y # ys \<and> y \<noteq> CHR 0x0A)")
      case False
      then have e: "?E = None" by (auto split: list.splits)
      have l: "?L = ?B" unfolding quoted_unfold[of G p x xs c] using False nq
        by (auto split: list.splits)
      from fallback[OF e l] show ?thesis .
    next
      case True
      then obtain y ys where bsl: "x = CHR 0x5C" and xs: "xs = y # ys" and nl: "y \<noteq> CHR 0x0A"
        by blast
      have l: "?L = ?A ys @ ?B" unfolding quoted_unfold[of G p x xs c] using bsl xs nl
        by simp
      have esc: "first (?A ys) = map_option (\<lambda>m. g (p + 2 + m) (drop m ys)) (qloop ys)"
        using "2.IH"(1)[OF nq bsl xs nl, of "p + 2"] by simp
      have E: "?E = map_option (\<lambda>n. n + 2) (qloop ys)" using bsl xs nl by simp
      show ?thesis
      proof (cases "qloop ys")
        case None
        with esc have a: "?A ys = []" by (simp add: first_def split: list.splits)
        from None E have e: "?E = None" by simp
        from l a have "?L = ?B" by simp
        from fallback[OF e this] show ?thesis .
      next
        case (Some m)
        with esc obtain r where a: "?A ys = g (p + 2 + m) (drop m ys) # r"
          by (auto simp: first_def split: list.splits)
        have "first (?L @ G (p, x # xs, c)) = Some (g (p + 2 + m) (drop m ys))"
          unfolding l a by simp
        moreover have "qloop (x # xs) = Some (m + 2)" unfolding q E Some by simp
        moreover have "drop (m + 2) (x # xs) = drop m ys" using xs by simp
        moreover have "p + (m + 2) = p + 2 + m" by simp
        ultimately show ?thesis by simp
      qed
    qed
  qed
qed

lemma quoted_start:
  assumes G: "\<And>p' s'. G (p', s', c) =
      (if s' \<noteq> [] \<and> hd s' = CHR 0x27 \<and> follow (tl s') then [g p' s'] else [])"
  shows "first (concat (map G (ms (Plus qbody) p s c))) =
           map_option (\<lambda>m. g (p + m) (drop m s)) (qstart s)"
proof (cases s)
  case Nil
  then show ?thesis by (simp add: quoted_Nil qstart_def)
next
  case (Cons x xs)
  show ?thesis
  proof (cases "x = CHR 0x27")
    case True
    with Cons show ?thesis by (simp add: quoted_unfold qstart_def)
  next
    case False
    with Cons have "G (p, s, c) = []" by (simp add: G)
    with quoted_first[of G c g p s, OF G] have
      "first (concat (map G (ms (Plus qbody) p s c))) =
         map_option (\<lambda>m. g (p + m) (drop m s)) (qloop s)" by simp
    with Cons False show ?thesis by (simp add: qstart_def)
  qed
qed

lemma after_option_word: "s' \<noteq> [] \<Longrightarrow> word_or_dash (hd s') \<Longrightarrow> after_option (p', s', c') = []"
  by (cases s') (auto simp: after_option_def follow_def word_or_dash_def is_word_def is_digit_def)

lemma ms_group1_follow:
  "ms (Cat (Grp 1 r) (Alt (Lit CHR '','') Eot)) 0 t c = concat (map after_option (ms r 0 t c))"
proof -
  have "(\<lambda>x. case x of (p', s', c') \<Rightarrow> ms (Alt (Lit CHR '','') Eot) p' s' c') \<circ>
        (\<lambda>x. case x of (p', s', c') \<Rightarrow> (p', s', c'[1 := Some (0, p')])) = after_option"
    by (rule ext) (simp add: after_option_def ms_follow del: ms.simps split: prod.splits)
  then show ?thesis by (simp add: map_map del: ms.simps(4))
qed

lemma bool_part:
  "concat (map after_option (ms BOOL_OPTION_REGEXP 0 t c)) =
     (if wrun t = [] then [] else after_option (length (wrun t), drop (length (wrun t)) t, c))"
  unfolding BOOL_OPTION_REGEXP_def wrun_def
  using ms_Plus_Cls_cont[of word_or_dash after_option 0 t c, OF after_option_word] by simp

lemma wrun_dash: "wrun (CHR ''-'' # r) = CHR ''-'' # wrun r"
  by (simp add: wrun_def word_or_dash_def)

lemma flag_part:
  "\<exists>n. concat (map after_option (ms FLAG_REGEXP 0 t c)) =
         concat (replicate n (after_option (length (wrun t), drop (length (wrun t)) t, c))) \<and>
       (wrun t = [] \<longrightarrow> n = 0)"
proof (cases t)
  case Nil
  then have "concat (map after_option (ms FLAG_REGEXP 0 t c)) = []"
    by (simp add: FLAG_REGEXP_def)
  then show ?thesis by (intro exI[of _ 0]) simp
next
  case (Cons x r)
  show ?thesis
  proof (cases "x = CHR ''-''")
    case False
    with Cons have "concat (map after_option (ms FLAG_REGEXP 0 t c)) = []"
      by (simp add: FLAG_REGEXP_def)
    then show ?thesis by (intro exI[of _ 0]) simp
  next
    case True
    let ?H = "after_option (length (wrun t), drop (length (wrun t)) t, c)"
    have one: "concat (map after_option (ms (Plus (Cls word_or_dash)) 1 r c)) =
        (if wrun r = [] then [] else ?H)"
      using ms_Plus_Cls_cont[of word_or_dash after_option 1 r c, OF after_option_word]
        Cons True by (simp add: wrun_def word_or_dash_def)
    have two: "concat (map after_option (ms (Plus (Cls word_or_dash)) 2 r2 c)) =
        (if wrun r2 = [] then [] else ?H)" if "r = CHR ''-'' # r2" for r2
      using ms_Plus_Cls_cont[of word_or_dash after_option 2 r2 c, OF after_option_word]
        Cons True that by (simp add: wrun_def word_or_dash_def)
    have ne: "wrun t \<noteq> []" using Cons True by (simp add: wrun_dash)
    show ?thesis
    proof (cases "\<exists>r2. r = CHR ''-'' # r2")
      case False
      then have "ms FLAG_REGEXP 0 t c = ms (Plus (Cls word_or_dash)) 1 r c"
        using Cons True by (cases r) (auto simp: FLAG_REGEXP_def)
      with one have "concat (map after_option (ms FLAG_REGEXP 0 t c)) =
          concat (replicate (if wrun r = [] then 0 else 1) ?H)" by simp
      with ne show ?thesis by blast
    next
      case t: True
      then obtain r2 where r: "r = CHR ''-'' # r2" by blast
      then have "ms FLAG_REGEXP 0 t c =
          ms (Plus (Cls word_or_dash)) 2 r2 c @ ms (Plus (Cls word_or_dash)) 1 r c"
        using Cons True by (simp add: FLAG_REGEXP_def numeral_2_eq_2)
      with one two[OF r] have "concat (map after_option (ms FLAG_REGEXP 0 t c)) =
          concat (replicate ((if wrun r2 = [] then 0 else 1) + (if wrun r = [] then 0 else 1)) ?H)"
        by (simp add: replicate_add)
      with ne show ?thesis by blast
    qed
  qed
qed

lemma concat_map_concat:
  "concat (map g (concat (map f l))) = concat (map (\<lambda>x. concat (map g (f x))) l)"
  by (induction l) simp_all

lemma QUOTED_qbody:
  "QUOTED_STRING_REGEXP = Cat (Lit CHR 0x27) (Cat (Grp 2 (Plus qbody)) (Lit CHR 0x27))"
  by (simp add: QUOTED_STRING_REGEXP_def qbody_def)

lemma quoted_part:
  "concat (map after_option (ms (Cat (Lit CHR ''='') QUOTED_STRING_REGEXP) k rest c)) =
     (case rest of
        x # y # body \<Rightarrow>
          if x = CHR ''='' \<and> y = CHR 0x27
          then concat (map (after_quoted (k + 2)) (ms (Plus qbody) (k + 2) body c))
          else []
      | _ \<Rightarrow> [])"
proof (cases rest)
  case Nil
  then show ?thesis by simp
next
  case (Cons x r1)
  show ?thesis
  proof (cases r1)
    case Nil
    with Cons show ?thesis by (simp add: QUOTED_qbody)
  next
    case c2: (Cons y body)
    show ?thesis
    proof (cases "x = CHR ''='' \<and> y = CHR 0x27")
      case False
      with Cons c2 show ?thesis by (auto simp: QUOTED_qbody)
    next
      case True
      have f: "(\<lambda>x. concat (map after_option
                  (case case x of (p', s', c') \<Rightarrow> (p', s', c'[2 := Some (Suc (Suc k), p')]) of
                     (p', s', c') \<Rightarrow> ms (Lit CHR 0x27) p' s' c'))) =
               after_quoted (k + 2)"
        by (rule ext)
           (auto simp: after_quoted_def after_option_def split: prod.splits list.splits)
      from True Cons c2 show ?thesis
        by (simp add: QUOTED_qbody concat_map_concat map_map comp_def f)
    qed
  qed
qed

lemma value_part:
  "concat (map after_option (ms VALUE_OPTION_REGEXP 0 t c)) =
     (if wrun t = [] then []
      else
        (case drop (length (wrun t)) t of
           x # y # body \<Rightarrow>
             if x = CHR ''='' \<and> y = CHR 0x27
             then concat (map (after_quoted (length (wrun t) + 2))
                            (ms (Plus qbody) (length (wrun t) + 2) body c))
             else []
         | _ \<Rightarrow> []))"
proof -
  let ?F = "\<lambda>x. concat (map after_option
      (case x of (p', s', c') \<Rightarrow> ms (Cat (Lit CHR ''='') QUOTED_STRING_REGEXP) p' s' c'))"
  have F: "?F (p', s', c') = []" if "s' \<noteq> []" "word_or_dash (hd s')" for p' s' c'
    using that by (cases s') (auto simp: word_or_dash_def is_word_def is_digit_def)
  have "concat (map after_option (ms VALUE_OPTION_REGEXP 0 t c)) =
      concat (map ?F (ms (Plus (Cls word_or_dash)) 0 t c))"
    by (simp add: VALUE_OPTION_REGEXP_def concat_map_concat del: ms.simps(3))
       (simp add: ms.simps(3)[of "Plus (Cls word_or_dash)"] concat_map_concat del: ms.simps(3))
  also have "\<dots> = (if wrun t = [] then []
      else ?F (length (wrun t), drop (length (wrun t)) t, c))"
    using ms_Plus_Cls_cont[of word_or_dash ?F 0 t c, OF F] by (simp add: wrun_def)
  finally show ?thesis by (simp add: quoted_part del: ms.simps)
qed

lemma ms_optionRegexp_later: "ms (Grp 0 optionRegexp) (Suc p) s c = []"
  by (simp add: optionRegexp_def)

lemma find_from_later: "find_from optionRegexp (Suc p) s = None"
  by (induction s arbitrary: p) (simp_all add: ms_optionRegexp_later del: ms.simps)

lemma ms_optionRegexp_start:
  "ms (Grp 0 optionRegexp) 0 t c =
     map (\<lambda>(p', s', c'). (p', s', c'[0 := Some (0, p')]))
       (concat (map after_option (ms FLAG_REGEXP 0 t c)) @
        concat (map after_option (ms BOOL_OPTION_REGEXP 0 t c)) @
        concat (map after_option (ms VALUE_OPTION_REGEXP 0 t c)))"
proof -
  have "ms optionRegexp 0 t c =
      ms (Cat (Grp 1 (Alt FLAG_REGEXP (Alt BOOL_OPTION_REGEXP VALUE_OPTION_REGEXP)))
            (Alt (Lit CHR '','') Eot)) 0 t c"
    unfolding optionRegexp_def ms.simps(3)[of Bot] ms.simps(8) by simp
  also have "\<dots> = concat (map after_option
      (ms (Alt FLAG_REGEXP (Alt BOOL_OPTION_REGEXP VALUE_OPTION_REGEXP)) 0 t c))"
    by (rule ms_group1_follow)
  finally show ?thesis unfolding ms.simps(7) ms.simps(4) by simp
qed

lemma FindStringSubmatchIndex_first:
  "FindStringSubmatchIndex optionRegexp t =
     map_option (\<lambda>(p', s', c'). c') (first (ms (Grp 0 optionRegexp) 0 t [None, None, None]))"
  unfolding FindStringSubmatchIndex_def
  by (subst find_from.simps)
     (simp add: find_from_later first_def del: find_from.simps ms.simps
        split: list.splits prod.splits)

lemma first_map: "first (map f l) = map_option f (first l)"
  by (cases l) simp_all

lemma first_replicate:
  "first (concat (replicate n [x]) @ [x] @ l) = Some x"
  by (cases n) simp_all

lemma optionRegexp_match: "FindStringSubmatchIndex optionRegexp t = match_tag t"
proof -
  let ?c = "[None, None, None] :: submatches"
  let ?k = "length (wrun t)"
  let ?rest = "drop ?k t"
  let ?LF = "concat (map after_option (ms FLAG_REGEXP 0 t ?c))"
  let ?LB = "concat (map after_option (ms BOOL_OPTION_REGEXP 0 t ?c))"
  let ?LV = "concat (map after_option (ms VALUE_OPTION_REGEXP 0 t ?c))"
  let ?u = "\<lambda>(p', s', c' :: submatches). (p', s', c'[0 := Some (0, p')])"
  have start: "FindStringSubmatchIndex optionRegexp t =
      map_option (\<lambda>(p', s', c'). c') (map_option ?u (first (?LF @ ?LB @ ?LV)))"
    unfolding FindStringSubmatchIndex_first ms_optionRegexp_start first_map ..
  from flag_part[of t ?c] obtain n where
    LF: "?LF = concat (replicate n (after_option (?k, ?rest, ?c)))"
    and n0: "wrun t = [] \<longrightarrow> n = 0" by blast
  show ?thesis
  proof (cases "wrun t = []")
    case True
    with n0 LF have "?LF = []" by simp
    moreover from True have "?LB = []" by (simp add: bool_part)
    moreover from True have "?LV = []" by (simp add: value_part)
    ultimately have "first (?LF @ ?LB @ ?LV) = None" by (simp only: append_Nil first_simps)
    with True show ?thesis unfolding start by (simp add: match_tag_def)
  next
    case ne: False
    show ?thesis
    proof (cases "follow ?rest")
      case True
      let ?x = "(?k + flen ?rest, drop (flen ?rest) ?rest, ?c[1 := Some (0, ?k)])"
      from True have H: "after_option (?k, ?rest, ?c) = [?x]" by (simp add: after_option_def)
      from ne have lb: "?LB = [?x]" by (simp add: bool_part H)
      have "first (?LF @ ?LB @ ?LV) = Some ?x"
        unfolding LF H lb by (rule first_replicate)
      with True ne show ?thesis unfolding start by (simp add: match_tag_def Let_def)
    next
      case False
      then have H: "after_option (?k, ?rest, ?c) = []" by (simp add: after_option_def)
      have lf: "?LF = []" unfolding LF H by simp
      from ne H have lb: "?LB = []" by (simp add: bool_part)
      show ?thesis
      proof (cases "\<exists>body. ?rest = CHR ''='' # CHR 0x27 # body")
        case nb: False
        with ne have lv: "?LV = []" by (auto simp: value_part split: list.splits)
        have "first (?LF @ ?LB @ ?LV) = None" unfolding lf lb lv by simp
        with nb ne False show ?thesis unfolding start
          by (auto simp: match_tag_def Let_def split: list.splits)
      next
        case True
        then obtain body where rest: "?rest = CHR ''='' # CHR 0x27 # body" by blast
        let ?g = "\<lambda>p' s'. (Suc p' + flen (tl s'), drop (flen (tl s')) (tl s'),
                     ?c[2 := Some (?k + 2, p'), 1 := Some (0, Suc p')])"
        have G: "after_quoted (?k + 2) (p', s', ?c) =
            (if s' \<noteq> [] \<and> hd s' = CHR 0x27 \<and> follow (tl s') then [?g p' s'] else [])"
          for p' s'
          by (cases s') (simp_all add: after_quoted_def)
        from ne rest have lv: "?LV = concat (map (after_quoted (?k + 2))
            (ms (Plus qbody) (?k + 2) body ?c))"
          by (simp add: value_part)
        have "first ?LV = map_option (\<lambda>m. ?g (?k + 2 + m) (drop m body)) (qstart body)"
          unfolding lv using quoted_start[of "after_quoted (?k + 2)" ?c ?g "?k + 2" body, OF G] .
        then have f: "first (?LF @ ?LB @ ?LV) =
            map_option (\<lambda>m. ?g (?k + 2 + m) (drop m body)) (qstart body)"
          unfolding lf lb by (simp only: append_Nil)
        show ?thesis
        proof (cases "qstart body")
          case None
          with f ne False rest show ?thesis unfolding start
            by (simp add: match_tag_def Let_def)
        next
          case (Some m)
          have "tl (drop m body) = drop (Suc m) body" by (simp add: drop_Suc tl_drop)
          with Some f ne False rest show ?thesis unfolding start
            by (simp add: match_tag_def Let_def add.commute add.left_commute eval_nat_numeral)
        qed
      qed
    qed
  qed
qed

section \<open>The tag parser, token by token\<close>

lemma next_token_computed:
  "next_token t =
     (let k = length (wrun t); rest = drop k t
      in if k = 0 then None
         else if follow rest then Some (take k t, [], drop (flen rest) rest)
         else
           (case rest of
              x # y # body \<Rightarrow>
                if x = CHR ''='' \<and> y = CHR 0x27
                then (case qstart body of
                        None \<Rightarrow> None
                      | Some n \<Rightarrow>
                          Some (take (k + n + 3) t, take n body,
                                drop (flen (drop (Suc n) body)) (drop (Suc n) body)))
                else None
            | _ \<Rightarrow> None))"
proof -
  let ?k = "length (wrun t)"
  have d: "drop a (drop ?k t) = drop (?k + a) t" for a by (simp add: add.commute)
  have r: "drop ?k t = x # y # body \<Longrightarrow> drop (?k + 2) t = body \<and> drop (?k + Suc (Suc n)) t = drop n body"
    for x y body n
    using d[of 2] d[of "Suc (Suc n)"] by simp
  show ?thesis
    unfolding next_token_def optionRegexp_match match_tag_def Let_def
    by (auto split: list.splits option.splits simp: d flen_def dest!: r
        simp: add.commute add.left_commute eval_nat_numeral)
qed

lemma qloop_bound: "qloop s = Some n \<Longrightarrow> n < length s"
proof (induction s arbitrary: n rule: qloop.induct)
  case 1
  then show ?case by simp
next
  case (2 x xs)
  show ?case
  proof (cases "x = CHR 0x27")
    case True
    with "2.prems" show ?thesis by (simp split: if_splits)
  next
    case nq: False
    let ?E = "if x = CHR 0x5C
              then (case xs of
                      [] \<Rightarrow> None
                    | y # ys \<Rightarrow>
                        if y \<noteq> CHR 0x0A then map_option (\<lambda>n. n + 2) (qloop ys) else None)
              else None"
    show ?thesis
    proof (cases ?E)
      case None
      with "2.prems" nq obtain m where m: "qloop xs = Some m" "n = Suc m"
        by (auto simp del: qloop.simps simp: qloop.simps(2)[of x xs])
      from "2.IH"(2)[OF nq None m(1)] m show ?thesis by simp
    next
      case (Some e)
      then obtain y ys m where bsl: "x = CHR 0x5C" and xs: "xs = y # ys" and nl: "y \<noteq> CHR 0x0A"
        and m: "qloop ys = Some m" "e = m + 2"
        by (auto split: if_splits list.splits)
      from Some "2.prems" nq have "n = e"
        by (auto simp del: qloop.simps simp: qloop.simps(2)[of x xs])
      with "2.IH"(1)[OF nq bsl xs nl m(1)] m xs show ?thesis by simp
    qed
  qed
qed

lemma qstart_bound: "qstart s = Some n \<Longrightarrow> n < length s"
  by (cases s) (auto simp: qstart_def split: if_splits dest: qloop_bound simp del: qloop.simps)

lemma word_no_key:
  assumes "list_all word_or_dash option" and "CHR ''='' \<in> set p"
  shows "\<not> HasPrefix option p"
proof
  assume "HasPrefix option p"
  then have "take (length p) option = p" by (simp add: HasPrefix_def)
  then have "set p \<subseteq> set option" by (metis set_take_subset)
  with assms(2) have "CHR ''='' \<in> set option" by blast
  with assms(1) have "word_or_dash CHR ''=''" by (auto simp: list_all_iff)
  then show False by (simp add: word_or_dash_def is_word_def is_digit_def)
qed

lemma wrun_words: "list_all word_or_dash (take (length (wrun t)) t)"
  unfolding wrun_def by (induction t) auto

lemma apply_option_word:
  "list_all word_or_dash option \<Longrightarrow> apply_option f option None = Return (apply_token f option [])"
  using word_no_key[of option "''description=''"] word_no_key[of option "''mutexgroup=''"]
  by (simp add: apply_option_def apply_token_def)

lemma apply_option_value:
  "b \<le> length option \<Longrightarrow> a \<le> b \<Longrightarrow>
   apply_option f option (Some (a, b)) = Return (apply_token f option (take (b - a) (drop a option)))"
  by (simp add: apply_option_def apply_token_def group_slice_def substr_def)

lemma drop_Cons_length: "drop k t = a # l \<Longrightarrow> Suc k \<le> length t"
proof (rule ccontr)
  assume d: "drop k t = a # l" and "\<not> Suc k \<le> length t"
  then have "length t \<le> k" by simp
  then have "drop k t = []" by simp
  with d show False by simp
qed

lemma parseTag_step_tokens:
  "parseTag_step f tag =
     (let t = TrimSpace tag
      in if t = [] then Return Break
         else
           (case next_token t of
              None \<Rightarrow> Return (Fail (no_match_error t))
            | Some (option, v, rest) \<Rightarrow>
                (case apply_token f option v of
                   Inl e \<Rightarrow> Return (Fail e)
                 | Inr f' \<Rightarrow> Return (Continue f' rest))))"
proof -
  let ?t = "TrimSpace tag"
  let ?k = "length (wrun ?t)"
  let ?rest = "drop ?k ?t"
  show ?thesis
  proof (cases "?t = []")
    case True
    then show ?thesis by (simp add: parseTag_step_def)
  next
    case ne: False
    show ?thesis
    proof (cases "match_tag ?t")
      case None
      then have "next_token ?t = None" by (simp add: next_token_def optionRegexp_match)
      with None ne show ?thesis
        by (simp add: parseTag_step_def optionRegexp_match no_match_error_def)
    next
      case (Some idx)
      then have k: "?k \<noteq> 0" by (auto simp: match_tag_def Let_def split: if_splits)
      then have kl: "?k \<le> length ?t" by (simp add: wrun_def length_takeWhile_le)
      show ?thesis
      proof (cases "follow ?rest")
        case True
        with Some k have idx: "idx = [Some (0, ?k + flen ?rest), Some (0, ?k), None]"
          by (simp add: match_tag_def Let_def)
        from True k have nt: "next_token ?t = Some (take ?k ?t, [], drop (flen ?rest) ?rest)"
          by (simp add: next_token_computed Let_def)
        have fl: "?k + flen ?rest \<le> length ?t"
          using kl by (cases ?rest) (auto simp: flen_def dest: drop_Cons_length)
        have ao: "apply_option f (take ?k ?t) None = Return (apply_token f (take ?k ?t) [])"
          by (rule apply_option_word[OF wrun_words])
        show ?thesis
          unfolding parseTag_step_def Let_def optionRegexp_match Some idx nt
          using ne kl fl ao
          by (simp add: group_slice_def substr_def add.commute split: sum.splits)
      next
        case False
        with Some k obtain body n where rest: "?rest = CHR ''='' # CHR 0x27 # body"
          and n: "qstart body = Some n"
          and idx: "idx = [Some (0, ?k + n + 3 + flen (drop (Suc n) body)),
                           Some (0, ?k + n + 3), Some (?k + 2, ?k + n + 2)]"
          by (auto simp: match_tag_def Let_def split: list.splits if_splits option.splits)
        from qstart_bound[OF n] have nb: "n < length body" .
        from rest have "length ?rest = Suc (Suc (length body))" by simp
        with kl have lt: "length ?t = ?k + 2 + length body" by simp
        let ?o = "take (?k + n + 3) ?t"
        let ?r = "drop (flen (drop (Suc n) body)) (drop (Suc n) body)"
        from False k rest n have nt: "next_token ?t = Some (?o, take n body, ?r)"
          by (simp add: next_token_computed Let_def)
        have "drop (?k + 2) ?t = drop 2 ?rest" by (simp add: add.commute)
        with rest have body: "drop (?k + 2) ?t = body" by simp
        have v: "take (?k + n + 2 - (?k + 2)) (drop (?k + 2) ?o) = take n body"
          using body by (simp add: drop_take take_take min_def) 
        have ao: "apply_option f ?o (Some (?k + 2, ?k + n + 2)) =
            Return (apply_token f ?o (take n body))"
          using apply_option_value[of "?k + n + 2" ?o "?k + 2" f] nb lt v by simp
        have fl: "?k + n + 3 + flen (drop (Suc n) body) \<le> length ?t"
          using lt nb by (cases "drop (Suc n) body") (auto simp: flen_def dest: drop_Cons_length)
        have dr: "drop (?k + n + 3 + flen (drop (Suc n) body)) ?t = ?r"
        proof -
          have "drop (?k + n + 3 + flen (drop (Suc n) body)) ?t =
              drop (flen (drop (Suc n) body)) (drop (Suc n) (drop (?k + 2) ?t))"
            by (simp add: add.commute add.left_commute eval_nat_numeral)
          then show ?thesis by (simp only: body)
        qed
        show ?thesis
          unfolding parseTag_step_def Let_def optionRegexp_match Some idx nt
          using ne lt nb fl ao dr
          by (simp add: group_slice_def substr_def split: sum.splits)
      qed
    qed
  qed
qed

lemma parseTag_loop_tokens:
  "parseTag_loop f tag =
     (let t = TrimSpace tag
      in if t = [] then Return (Inr f)
         else
           (case next_token t of
              None \<Rightarrow> Return (Inl (no_match_error t))
            | Some (option, v, rest) \<Rightarrow>
                (case apply_token f option v of
                   Inl e \<Rightarrow> Return (Inl e)
                 | Inr f' \<Rightarrow> parseTag_loop f' rest)))"
  by (subst parseTag_loop.simps)
     (simp add: parseTag_step_tokens Let_def split: option.splits sum.splits)

lemma names_Nil [simp]:
  "short_names [] = []" "long_names [] = []" "last_value key d [] = d" "\<not> has_option name []"
  by (simp_all add: short_names_def long_names_def last_value_def has_option_def)

lemma short_names_Cons:
  "short_names ((option, v) # ts) =
     (if HasPrefix option ''-'' \<and> \<not> HasPrefix option ''--'' then [drop 1 option] else [])
       @ short_names ts"
  by (simp add: short_names_def)

lemma long_names_Cons:
  "long_names ((option, v) # ts) =
     (if HasPrefix option ''--'' then [drop 2 option] else []) @ long_names ts"
  by (simp add: long_names_def)

lemma last_value_Cons:
  "last_value key d ((option, v) # ts) =
     last_value key (if HasPrefix option key then v else d) ts"
  by (simp add: last_value_def split: list.splits)

lemma has_option_Cons:
  "has_option name ((option, v) # ts) \<longleftrightarrow> option = name \<or> has_option name ts"
  by (auto simp: has_option_def)

lemma scan_Nil: "TrimSpace tag = [] \<Longrightarrow> scan tag = []"
  by (subst scan.simps) simp

lemma scan_None: "next_token (TrimSpace tag) = None \<Longrightarrow> scan tag = []"
  by (subst scan.simps) (simp add: Let_def)

lemma scan_Some:
  "TrimSpace tag \<noteq> [] \<Longrightarrow> next_token (TrimSpace tag) = Some (option, v, rest) \<Longrightarrow>
   scan tag = (option, v) # scan rest"
  by (subst scan.simps) simp

lemma HasPrefix_dash2: "HasPrefix option ''--'' \<Longrightarrow> HasPrefix option ''-''"
  by (cases option) (auto simp: HasPrefix_def)

lemma HasPrefix_key_no_dash:
  "HasPrefix option ''description='' \<or> HasPrefix option ''mutexgroup='' \<or>
   option = ''accumulate'' \<or> option = ''obligatory'' \<Longrightarrow> \<not> HasPrefix option ''-''"
  by (cases option) (auto simp: HasPrefix_def)

lemma HasPrefix_keys_distinct:
  "HasPrefix option ''description='' \<Longrightarrow>
     \<not> HasPrefix option ''mutexgroup='' \<and> option \<noteq> ''accumulate'' \<and> option \<noteq> ''obligatory''"
  "HasPrefix option ''mutexgroup='' \<Longrightarrow> option \<noteq> ''accumulate'' \<and> option \<noteq> ''obligatory''"
  by (cases option; auto simp: HasPrefix_def)+

lemma apply_token_fields:
  assumes "apply_token f option v = Inr f'"
  shows "flag.Short f' = flag.Short f @ short_names [(option, v)] \<and>
         flag.Long f' = flag.Long f @ long_names [(option, v)] \<and>
         flag.Description f' = last_value ''description='' (flag.Description f) [(option, v)] \<and>
         MutexGroup f' = last_value ''mutexgroup='' (MutexGroup f) [(option, v)] \<and>
         Accumulate f' = (Accumulate f \<or> option = ''accumulate'') \<and>
         flag.Obligatory f' = (flag.Obligatory f \<or> option = ''obligatory'')"
proof -
  consider "HasPrefix option ''--''"
    | "\<not> HasPrefix option ''--''" "HasPrefix option ''-''"
    | "\<not> HasPrefix option ''-''" "HasPrefix option ''description=''"
    | "\<not> HasPrefix option ''-''" "\<not> HasPrefix option ''description=''"
      "HasPrefix option ''mutexgroup=''"
    | "\<not> HasPrefix option ''-''" "\<not> HasPrefix option ''description=''"
      "\<not> HasPrefix option ''mutexgroup=''"
    by blast
  then show ?thesis
  proof cases
    case 1
    with assms HasPrefix_dash2[OF 1] HasPrefix_key_no_dash[of option] show ?thesis
      by (auto simp: apply_token_def short_names_Cons long_names_Cons last_value_Cons)
  next
    case 2
    with assms HasPrefix_key_no_dash[of option] show ?thesis
      by (auto simp: apply_token_def short_names_Cons long_names_Cons last_value_Cons)
  next
    case 3
    with assms HasPrefix_dash2[of option] HasPrefix_keys_distinct(1)[OF 3(2)] show ?thesis
      by (auto simp: apply_token_def short_names_Cons long_names_Cons last_value_Cons)
  next
    case 4
    with assms HasPrefix_dash2[of option] HasPrefix_keys_distinct(2)[OF 4(3)] show ?thesis
      by (auto simp: apply_token_def short_names_Cons long_names_Cons last_value_Cons)
  next
    case 5
    with assms HasPrefix_dash2[of option] show ?thesis
      by (auto simp: apply_token_def short_names_Cons long_names_Cons last_value_Cons
          split: if_splits)
  qed
qed

lemma parseTag_loop_fields:
  "parseTag_loop f0 tag = Return (Inr f) \<Longrightarrow>
   flag.Short f = flag.Short f0 @ short_names (scan tag) \<and>
   flag.Long f = flag.Long f0 @ long_names (scan tag) \<and>
   flag.Description f = last_value ''description='' (flag.Description f0) (scan tag) \<and>
   MutexGroup f = last_value ''mutexgroup='' (MutexGroup f0) (scan tag) \<and>
   Accumulate f = (Accumulate f0 \<or> has_option ''accumulate'' (scan tag)) \<and>
   flag.Obligatory f = (flag.Obligatory f0 \<or> has_option ''obligatory'' (scan tag))"
proof (induction f0 tag arbitrary: f rule: parseTag_loop.induct)
  case (1 f0 tag)
  let ?t = "TrimSpace tag"
  show ?case
  proof (cases "?t = []")
    case True
    with "1.prems" have "f = f0" by (simp add: parseTag_loop_tokens)
    with True show ?thesis by (simp add: scan_Nil)
  next
    case ne: False
    with "1.prems" obtain option v rest f1 where nt: "next_token ?t = Some (option, v, rest)"
      and ap: "apply_token f0 option v = Inr f1" and lp: "parseTag_loop f1 rest = Return (Inr f)"
      by (auto simp: parseTag_loop_tokens[of f0 tag] Let_def split: option.splits sum.splits)
    from ne nt ap have st: "parseTag_step f0 tag = Return (Continue f1 rest)"
      by (simp add: parseTag_step_tokens)
    note ih = "1.IH"[OF st refl lp]
    note a = apply_token_fields[OF ap]
    have sc: "scan tag = (option, v) # scan rest" by (rule scan_Some[OF ne nt])
    from a have s: "flag.Short f1 = flag.Short f0 @ short_names [(option, v)]"
      and l: "flag.Long f1 = flag.Long f0 @ long_names [(option, v)]"
      and d: "flag.Description f1 = last_value ''description='' (flag.Description f0) [(option, v)]"
      and m: "MutexGroup f1 = last_value ''mutexgroup='' (MutexGroup f0) [(option, v)]"
      and ac: "Accumulate f1 = (Accumulate f0 \<or> option = ''accumulate'')"
      and ob: "flag.Obligatory f1 = (flag.Obligatory f0 \<or> option = ''obligatory'')"
      by simp_all
    have "flag.Short f = flag.Short f0 @ short_names (scan tag)"
      using ih s unfolding sc by (simp add: short_names_Cons)
    moreover have "flag.Long f = flag.Long f0 @ long_names (scan tag)"
      using ih l unfolding sc by (simp add: long_names_Cons)
    moreover have "flag.Description f =
        last_value ''description='' (flag.Description f0) (scan tag)"
      using ih d unfolding sc by (simp add: last_value_Cons)
    moreover have "MutexGroup f = last_value ''mutexgroup='' (MutexGroup f0) (scan tag)"
      using ih m unfolding sc by (simp add: last_value_Cons)
    moreover have "Accumulate f = (Accumulate f0 \<or> has_option ''accumulate'' (scan tag))"
      using ih ac unfolding sc by (simp add: has_option_Cons)
    moreover have "flag.Obligatory f =
        (flag.Obligatory f0 \<or> has_option ''obligatory'' (scan tag))"
      using ih ob unfolding sc by (simp add: has_option_Cons)
    ultimately show ?thesis by blast
  qed
qed

lemma loop_Nil: "TrimSpace tag = [] \<Longrightarrow> parseTag_loop f tag = Return (Inr f)"
  by (subst parseTag_loop_tokens) simp

lemma loop_None:
  "TrimSpace tag \<noteq> [] \<Longrightarrow> next_token (TrimSpace tag) = None \<Longrightarrow>
   parseTag_loop f tag = Return (Inl (no_match_error (TrimSpace tag)))"
  by (subst parseTag_loop_tokens) (simp add: Let_def)

lemma loop_Some:
  "TrimSpace tag \<noteq> [] \<Longrightarrow> next_token (TrimSpace tag) = Some (option, v, rest) \<Longrightarrow>
   parseTag_loop f tag =
     (case apply_token f option v of
        Inl e \<Rightarrow> Return (Inl e)
      | Inr f' \<Rightarrow> parseTag_loop f' rest)"
  by (subst parseTag_loop_tokens) (simp add: Let_def)

lemmas tag_eval =
  parseTag_def new_flag_def loop_Nil loop_None loop_Some scan_Nil scan_None scan_Some
  TrimSpace_def trim_left.simps trim_right.simps
  leading_space_def trailing_space_def space_encodings_def next_token_computed Let_def
  wrun_def word_or_dash_def is_word_def is_digit_def follow_def flen_def qstart_def
  apply_token_def HasPrefix_def no_match_error_def

lemma next_token_None: "next_token t = None \<longleftrightarrow> FindStringSubmatchIndex optionRegexp t = None"
  unfolding next_token_def optionRegexp_match match_tag_def Let_def
  by (auto split: option.splits list.splits if_splits)

lemma apply_token_Inl:
  "apply_token f option v = Inl e \<longleftrightarrow>
     \<not> HasPrefix option ''-'' \<and> \<not> HasPrefix option ''description='' \<and>
     \<not> HasPrefix option ''mutexgroup='' \<and> option \<noteq> ''accumulate'' \<and>
     option \<noteq> ''obligatory'' \<and> e = Errorf (''Unknown option '' @ option)"
  using HasPrefix_dash2[of option] by (auto simp: apply_token_def)

lemma apply_token_Inr: "(\<exists>f'. apply_token f option v = Inr f') \<longleftrightarrow> recognized option"
  using HasPrefix_dash2[of option] by (auto simp: apply_token_def recognized_def)

lemma visits_loop: "visits f0 tag f r \<Longrightarrow> parseTag_loop f0 tag = parseTag_loop f r"
proof (induction rule: visits.induct)
  case visits_start
  show ?case ..
next
  case (visits_next f r option v rest f')
  from loop_Some[OF visits_next.hyps(2,3), of f] visits_next.hyps(4) visits_next.IH
  show ?case by simp
qed

lemma visits_trans: "visits f1 r1 f r \<Longrightarrow> visits f0 tag f1 r1 \<Longrightarrow> visits f0 tag f r"
proof (induction rule: visits.induct)
  case visits_start
  then show ?case .
next
  case (visits_next f r option v rest f')
  from visits.visits_next[OF visits_next.IH[OF visits_next.prems] visits_next.hyps(2,3,4)]
  show ?case .
qed

lemma parseTag_loop_total: "\<exists>r. parseTag_loop f tag = Return r"
proof (induction f tag rule: parseTag_loop.induct)
  case (1 f tag)
  let ?t = "TrimSpace tag"
  show ?case
  proof (cases "?t = []")
    case True
    then show ?thesis by (simp add: loop_Nil)
  next
    case ne: False
    show ?thesis
    proof (cases "next_token ?t")
      case None
      with ne show ?thesis by (simp add: loop_None)
    next
      case (Some x)
      obtain option v rest where x: "x = (option, v, rest)" by (cases x) auto
      show ?thesis
      proof (cases "apply_token f option v")
        case (Inl e)
        with loop_Some[OF ne Some[unfolded x], of f] show ?thesis by simp
      next
        case (Inr f')
        from ne Some x Inr have "parseTag_step f tag = Return (Continue f' rest)"
          by (simp add: parseTag_step_tokens)
        from "1.IH"[OF this refl] loop_Some[OF ne Some[unfolded x], of f] Inr
        show ?thesis by simp
      qed
    qed
  qed
qed

lemma loop_error_visits:
  "parseTag_loop f0 tag = Return (Inl e) \<Longrightarrow>
   \<exists>f r. visits f0 tag f r \<and> (unparseable r e \<or> unrecognized r e)"
proof (induction f0 tag rule: parseTag_loop.induct)
  case (1 f0 tag)
  let ?t = "TrimSpace tag"
  from "1.prems" have ne: "?t \<noteq> []" by (auto simp: loop_Nil)
  show ?case
  proof (cases "next_token ?t")
    case None
    with ne "1.prems" have "e = no_match_error ?t" by (simp add: loop_None)
    with None ne have "unparseable tag e"
      by (simp add: unparseable_def next_token_None no_match_error_def)
    then show ?thesis using visits_start by blast
  next
    case (Some x)
    obtain option v rest where x: "x = (option, v, rest)" by (cases x) auto
    note nt = Some[unfolded x]
    show ?thesis
    proof (cases "apply_token f0 option v")
      case (Inl e')
      with loop_Some[OF ne nt, of f0] "1.prems" have "e' = e" by simp
      with Inl have "unrecognized tag e"
        unfolding unrecognized_def using ne nt by (auto simp: apply_token_Inl)
      then show ?thesis using visits_start by blast
    next
      case (Inr f1)
      from ne nt Inr have st: "parseTag_step f0 tag = Return (Continue f1 rest)"
        by (simp add: parseTag_step_tokens)
      from loop_Some[OF ne nt, of f0] Inr "1.prems" have "parseTag_loop f1 rest = Return (Inl e)"
        by simp
      from "1.IH"[OF st refl this] obtain f r where v: "visits f1 rest f r"
        and b: "unparseable r e \<or> unrecognized r e" by blast
      have "visits f0 tag f1 rest" by (rule visits_next[OF visits_start ne nt Inr])
      from visits_trans[OF v this] b show ?thesis by blast
    qed
  qed
qed

lemma bad_loop_error:
  assumes "unparseable r e \<or> unrecognized r e"
  shows "parseTag_loop f r = Return (Inl e)"
  using assms
proof
  assume "unparseable r e"
  then show ?thesis
    by (simp add: unparseable_def loop_None next_token_None[symmetric] no_match_error_def)
next
  assume "unrecognized r e"
  then obtain option v rest where ne: "TrimSpace r \<noteq> []"
    and nt: "next_token (TrimSpace r) = Some (option, v, rest)"
    and u: "apply_token f option v = Inl e"
    by (auto simp: unrecognized_def apply_token_Inl)
  from loop_Some[OF ne nt, of f] u show ?thesis by simp
qed

lemma parseTag_example:
  "parseTag ''-n, --nm'' =
     Return (Inr \<lparr>flag.Short = [''n''], Long = [''nm''], Description = [],
                  MutexGroup = [], Accumulate = False, Obligatory = False\<rparr>)"
  by (simp add: tag_eval)

lemma scan_example: "scan ''-n, --nm'' = [(''-n'', []), (''--nm'', [])]"
  by (simp add: tag_eval)

text \<open>
  C9.  \<open>parseTag\<close> reads nothing but its argument: two runs on the same tag that
  succeed return descriptors with equal short names, long names, description, mutex
  group, accumulate and obligatory settings.  What they are is fixed by the options
  that the loop cuts out of the tag, in their order of appearance (\<open>scan\<close>): the
  short names are the options with one leading dash, without the dash, in that
  order, every occurrence counting; the long names those with two leading dashes;
  the description and the mutex group the value of the last option with that key, or
  empty; accumulate and obligatory are set exactly if the option occurs.
\<close>

theorem parseTag_deterministic:
  "(\<forall>f1 f2. parseTag tag = Return (Inr f1) \<and> parseTag tag = Return (Inr f2) \<longrightarrow>
      flag.Short f1 = flag.Short f2 \<and> flag.Long f1 = flag.Long f2 \<and>
      flag.Description f1 = flag.Description f2 \<and> MutexGroup f1 = MutexGroup f2 \<and>
      Accumulate f1 = Accumulate f2 \<and> flag.Obligatory f1 = flag.Obligatory f2) \<and>
   (\<forall>f. parseTag tag = Return (Inr f) \<longrightarrow>
      flag.Short f = short_names (scan tag) \<and>
      flag.Long f = long_names (scan tag) \<and>
      flag.Description f = last_value ''description='' [] (scan tag) \<and>
      MutexGroup f = last_value ''mutexgroup='' [] (scan tag) \<and>
      Accumulate f = has_option ''accumulate'' (scan tag) \<and>
      flag.Obligatory f = has_option ''obligatory'' (scan tag))"
proof (rule conjI)
  show "\<forall>f. parseTag tag = Return (Inr f) \<longrightarrow>
      flag.Short f = short_names (scan tag) \<and>
      flag.Long f = long_names (scan tag) \<and>
      flag.Description f = last_value ''description='' [] (scan tag) \<and>
      MutexGroup f = last_value ''mutexgroup='' [] (scan tag) \<and>
      Accumulate f = has_option ''accumulate'' (scan tag) \<and>
      flag.Obligatory f = has_option ''obligatory'' (scan tag)"
  proof (intro allI impI)
    fix f
    assume "parseTag tag = Return (Inr f)"
    from parseTag_loop_fields[OF this[unfolded parseTag_def]]
    show "flag.Short f = short_names (scan tag) \<and>
      flag.Long f = long_names (scan tag) \<and>
      flag.Description f = last_value ''description='' [] (scan tag) \<and>
      MutexGroup f = last_value ''mutexgroup='' [] (scan tag) \<and>
      Accumulate f = has_option ''accumulate'' (scan tag) \<and>
      flag.Obligatory f = has_option ''obligatory'' (scan tag)"
      by (simp add: new_flag_def)
  qed
next
  show "\<forall>f1 f2. parseTag tag = Return (Inr f1) \<and> parseTag tag = Return (Inr f2) \<longrightarrow>
      flag.Short f1 = flag.Short f2 \<and> flag.Long f1 = flag.Long f2 \<and>
      flag.Description f1 = flag.Description f2 \<and> MutexGroup f1 = MutexGroup f2 \<and>
      Accumulate f1 = Accumulate f2 \<and> flag.Obligatory f1 = flag.Obligatory f2"
    by auto
qed

theorem parseTag_deterministic_witness:
  "parseTag ''-n, --nm'' =
     Return (Inr \<lparr>flag.Short = [''n''], Long = [''nm''], Description = [],
                  MutexGroup = [], Accumulate = False, Obligatory = False\<rparr>) \<and>
   scan ''-n, --nm'' = [(''-n'', []), (''--nm'', [])] \<and>
   short_names (scan ''-n, --nm'') = [''n''] \<and>
   long_names (scan ''-n, --nm'') = [''nm''] \<and>
   \<not> has_option ''obligatory'' (scan ''-n, --nm'')"
  using parseTag_deterministic[of "''-n, --nm''"]
  unfolding parseTag_example scan_example
  by (simp add: short_names_def long_names_def has_option_def HasPrefix_def)

text \<open>
  C6.  \<open>parseTag\<close> always returns.  It returns an error exactly when the loop, having
  applied the options before it, starts a turn on a rest of the tag whose leading
  portion \<open>optionRegexp\<close> does not match (the error then names that rest, trimmed),
  or whose leading option is none of: a token with a leading dash, \<open>description=\<close>
  and \<open>mutexgroup=\<close> with a quoted value, \<open>accumulate\<close>, \<open>obligatory\<close> (the error is
  then \<open>Unknown option\<close> with that option).  If every turn starts on an empty rest
  or on a recognized option, \<open>parseTag\<close> returns a descriptor.
\<close>

theorem parseTag_fails_iff:
  "(\<exists>r. parseTag tag = Return r) \<and>
   (\<forall>e. parseTag tag = Return (Inl e) \<longleftrightarrow>
        (\<exists>f r. visits new_flag tag f r \<and> (unparseable r e \<or> unrecognized r e))) \<and>
   ((\<forall>f r. visits new_flag tag f r \<longrightarrow>
        TrimSpace r = [] \<or>
        (\<exists>option v rest. next_token (TrimSpace r) = Some (option, v, rest) \<and>
           recognized option)) \<longrightarrow>
    (\<exists>f. parseTag tag = Return (Inr f)))"
proof -
  have total: "\<exists>r. parseTag tag = Return r"
    unfolding parseTag_def by (rule parseTag_loop_total)
  have iff: "parseTag tag = Return (Inl e) \<longleftrightarrow>
      (\<exists>f r. visits new_flag tag f r \<and> (unparseable r e \<or> unrecognized r e))" for e
  proof
    assume "parseTag tag = Return (Inl e)"
    then show "\<exists>f r. visits new_flag tag f r \<and> (unparseable r e \<or> unrecognized r e)"
      unfolding parseTag_def by (rule loop_error_visits)
  next
    assume "\<exists>f r. visits new_flag tag f r \<and> (unparseable r e \<or> unrecognized r e)"
    then obtain f r where v: "visits new_flag tag f r"
      and b: "unparseable r e \<or> unrecognized r e" by blast
    from visits_loop[OF v] bad_loop_error[OF b, of f]
    show "parseTag tag = Return (Inl e)" by (simp add: parseTag_def)
  qed
  have good: "\<exists>f. parseTag tag = Return (Inr f)"
    if g: "\<forall>f r. visits new_flag tag f r \<longrightarrow>
        TrimSpace r = [] \<or>
        (\<exists>option v rest. next_token (TrimSpace r) = Some (option, v, rest) \<and>
           recognized option)"
  proof -
    from total obtain r where r: "parseTag tag = Return r" by blast
    show ?thesis
    proof (cases r)
      case (Inr f)
      with r show ?thesis by blast
    next
      case (Inl e)
      with r iff[of e] obtain f x where v: "visits new_flag tag f x"
        and b: "unparseable x e \<or> unrecognized x e" by blast
      from g v have "TrimSpace x = [] \<or>
        (\<exists>option v rest. next_token (TrimSpace x) = Some (option, v, rest) \<and>
           recognized option)" by blast
      with b have False
        by (auto simp: unparseable_def unrecognized_def recognized_def
            next_token_None[symmetric])
      then show ?thesis ..
    qed
  qed
  from total iff good show ?thesis by blast
qed

theorem parseTag_fails_iff_witness:
  "parseTag ''-n, foo'' = Return (Inl (Errorf ''Unknown option foo'')) \<and>
   visits new_flag ''-n, foo'' (new_flag\<lparr>flag.Short := [''n'']\<rparr>) '' foo'' \<and>
   unrecognized '' foo'' (Errorf ''Unknown option foo'') \<and>
   parseTag ''-n ,'' = Return (Inl (Errorf
     (''Could not find a valid flag definition at the beginning of '' @ [CHR 0x22] @ ''-n ,''
        @ [CHR 0x22]))) \<and>
   unparseable ''-n ,'' (Errorf
     (''Could not find a valid flag definition at the beginning of '' @ [CHR 0x22] @ ''-n ,''
        @ [CHR 0x22])) \<and>
   (\<exists>f. parseTag ''-n, --name'' = Return (Inr f))"
proof -
  have v: "visits new_flag ''-n, foo'' (new_flag\<lparr>flag.Short := [''n'']\<rparr>) '' foo''"
    by (rule visits_next[OF visits_start, of _ "''-n''" "[]"]) (simp_all add: tag_eval)
  have u: "unrecognized '' foo'' (Errorf ''Unknown option foo'')"
    by (simp add: unrecognized_def tag_eval)
  have p: "unparseable ''-n ,'' (Errorf
     (''Could not find a valid flag definition at the beginning of '' @ [CHR 0x22] @ ''-n ,''
        @ [CHR 0x22]))"
    by (simp add: unparseable_def next_token_None[symmetric] tag_eval)
  have "\<exists>f. parseTag ''-n, --name'' = Return (Inr f)" by (simp add: tag_eval)
  with v u p visits_start[of new_flag "''-n ,''"]
    parseTag_fails_iff[of "''-n, foo''"] parseTag_fails_iff[of "''-n ,''"]
  show ?thesis by blast
qed

section \<open>White space in a tag\<close>

text \<open>
  A string of white space is one that \<open>strings.TrimSpace\<close> trims from the left to
  nothing: a sequence of encodings of white space code points.
\<close>

definition all_space :: "string \<Rightarrow> bool" where
  "all_space w \<longleftrightarrow> trim_left w = []"

definition enc_len :: "char \<Rightarrow> nat" where
  "enc_len c = (if c = CHR 0xC2 then 2 else if c \<in> {CHR 0xE1, CHR 0xE2, CHR 0xE3} then 3 else 1)"

definition is_lead :: "char \<Rightarrow> bool" where
  "is_lead c \<longleftrightarrow> c \<in> {CHR 0x09, CHR 0x0A, CHR 0x0B, CHR 0x0C, CHR 0x0D, CHR 0x20,
                         CHR 0xC2, CHR 0xE1, CHR 0xE2, CHR 0xE3}"

lemma enc_props:
  assumes "e \<in> set space_encodings"
  shows "e \<noteq> []" and "length e = enc_len (hd e)" and "is_lead (hd e)"
    and "\<forall>c\<in>set (tl e). \<not> is_lead c"
  using assms by (auto simp: space_encodings_def enc_len_def is_lead_def)

lemma enc_prefix_free:
  assumes e: "e \<in> set space_encodings" and e': "e' \<in> set space_encodings"
    and t: "take (length e) s = e" and t': "take (length e') s = e'"
  shows "e = e'"
proof -
  have h: "x \<noteq> [] \<Longrightarrow> take (length x) s = x \<Longrightarrow> hd x = hd s" for x :: string
    by (cases s; cases x) auto
  from h[OF enc_props(1)[OF e] t] h[OF enc_props(1)[OF e'] t'] have "length e = length e'" using enc_props(2)[OF e] enc_props(2)[OF e'] by simp
  with t t' show ?thesis by metis
qed

lemma leading_space_enc:
  assumes e: "e \<in> set space_encodings"
  shows "leading_space (e @ s) = Some e"
proof (cases "leading_space (e @ s)")
  case None
  with e show ?thesis by (auto simp: leading_space_def find_None_iff)
next
  case (Some e')
  from leading_space_Some[OF Some] have "e' \<in> set space_encodings" "take (length e') (e @ s) = e'"
    by simp_all
  from enc_prefix_free[OF e this(1) _ this(2)] Some show ?thesis by simp
qed

lemma trim_left_enc: "e \<in> set space_encodings \<Longrightarrow> trim_left (e @ s) = trim_left s"
  by (subst trim_left.simps) (simp add: leading_space_enc)

lemma trim_left_concat:
  "set es \<subseteq> set space_encodings \<Longrightarrow> trim_left (concat es @ s) = trim_left s"
  by (induction es) (simp_all add: trim_left_enc)

lemma all_space_concat:
  "all_space w \<Longrightarrow> \<exists>es. set es \<subseteq> set space_encodings \<and> w = concat es"
  unfolding all_space_def
proof (induction w rule: trim_left.induct)
  case (1 s)
  show ?case
  proof (cases "leading_space s")
    case None
    with "1.prems" have "s = []" by (simp add: trim_left_None)
    then show ?thesis by (intro exI[of _ "[]"]) simp
  next
    case (Some e)
    from leading_space_Some[OF Some] have e: "e \<in> set space_encodings"
      and t: "take (length e) s = e" by simp_all
    from "1.prems" Some have "trim_left (drop (length e) s) = []" by (simp add: trim_left_Some)
    from "1.IH"[OF Some this] obtain es where es: "set es \<subseteq> set space_encodings"
      and d: "drop (length e) s = concat es" by blast
    have "s = concat (e # es)" using t d append_take_drop_id[of "length e" s] by simp
    with e es show ?thesis by (intro exI[of _ "e # es"]) simp
  qed
qed


lemma enc_last:
  "e \<in> set space_encodings \<Longrightarrow>
   length e = (if (of_char (last e) :: nat) < 128 then 1
               else if e ! (length e - 2) = CHR 0xC2 then 2 else 3)"
  by (auto simp: space_encodings_def)

lemma suffix_last:
  fixes x s :: string
  assumes "x \<noteq> []" and "drop (length s - length x) s = x"
  shows "length x \<le> length s" and "last x = last s"
    and "2 \<le> length x \<Longrightarrow> x ! (length x - 2) = s ! (length s - 2)"
proof -
  from assms have "length (drop (length s - length x) s) = length x" by simp
  then show le: "length x \<le> length s" by simp
  from assms(1) have "drop (length s - length x) s \<noteq> []" using assms(2) by simp
  then have "last (drop (length s - length x) s) = last s" by (simp add: last_drop)
  with assms(2) show "last x = last s" by simp
  assume two: "2 \<le> length x"
  have "x ! (length x - 2) = drop (length s - length x) s ! (length x - 2)"
    using assms(2) by simp
  also have "\<dots> = s ! (length s - length x + (length x - 2))"
    using le two by (intro nth_drop) simp
  also have "length s - length x + (length x - 2) = length s - 2" using le two by simp
  finally show "x ! (length x - 2) = s ! (length s - 2)" .
qed

lemma enc_suffix_free:
  assumes e: "e \<in> set space_encodings" and e': "e' \<in> set space_encodings"
    and t: "drop (length s - length e) s = e" and t': "drop (length s - length e') s = e'"
  shows "e = e'"
proof -
  note a = suffix_last[OF enc_props(1)[OF e] t]
  note b = suffix_last[OF enc_props(1)[OF e'] t']
  have "length e = length e'"
  proof (cases "(of_char (last s) :: nat) < 128")
    case True
    with enc_last[OF e] enc_last[OF e'] a(2) b(2) show ?thesis by simp
  next
    case False
    with enc_last[OF e] enc_last[OF e'] a(2) b(2) have "2 \<le> length e" "2 \<le> length e'"
      by (simp_all split: if_splits)
    from a(3)[OF this(1)] b(3)[OF this(2)] have "e ! (length e - 2) = e' ! (length e' - 2)"
      by simp
    with enc_last[OF e] enc_last[OF e'] a(2) b(2) False show ?thesis by simp
  qed
  with t t' show ?thesis by metis
qed

lemma trailing_space_enc:
  assumes e: "e \<in> set space_encodings"
  shows "trailing_space (s @ e) = Some e"
proof (cases "trailing_space (s @ e)")
  case None
  with e show ?thesis by (auto simp: trailing_space_def find_None_iff)
next
  case (Some e')
  from trailing_space_Some[OF Some] have "e' \<in> set space_encodings"
    "drop (length (s @ e) - length e') (s @ e) = e'" by simp_all
  from enc_suffix_free[OF e this(1) _ this(2)] Some show ?thesis by simp
qed

lemma trim_right_enc: "e \<in> set space_encodings \<Longrightarrow> trim_right (s @ e) = trim_right s"
  by (subst trim_right.simps) (simp add: trailing_space_enc)

lemma trim_right_concat:
  "set es \<subseteq> set space_encodings \<Longrightarrow> trim_right (s @ concat es) = trim_right s"
proof (induction es rule: rev_induct)
  case Nil
  then show ?case by simp
next
  case (snoc e es)
  then have "trim_right ((s @ concat es) @ e) = trim_right (s @ concat es)"
    by (intro trim_right_enc) simp
  with snoc show ?case by simp
qed

lemma trim_right_Nil: "trim_right [] = []"
  by (rule trim_right_None) (auto simp: trailing_space_def find_None_iff dest: enc_props(1))

lemma leading_space_boundary:
  assumes s: "s \<noteq> []" and n: "leading_space s = None" and es: "set es \<subseteq> set space_encodings"
  shows "leading_space (s @ concat es) = None"
proof (cases "leading_space (s @ concat es)")
  case None
  then show ?thesis .
next
  case (Some e)
  from leading_space_Some[OF Some] have e: "e \<in> set space_encodings"
    and t: "take (length e) (s @ concat es) = e" by simp_all
  have False
  proof (cases "length e \<le> length s")
    case True
    with t have "take (length e) s = e" by simp
    with n e show False by (auto simp: leading_space_def find_None_iff)
  next
    case False
    then have lt: "length s < length e" by simp
    have ne: "concat es \<noteq> []"
    proof
      assume "concat es = []"
      with t have "take (length e) s = e" by simp
      from arg_cong[OF this, of length] lt show False by simp
    qed
    then obtain e1 es' where es1: "es = e1 # es'" by (cases es) auto
    with es have e1: "e1 \<in> set space_encodings" by simp
    from enc_props(1)[OF e1] es1 have hd1: "hd (concat es) = hd e1" by simp
    have "e ! length s = take (length e) (s @ concat es) ! length s" using t by simp
    also have "\<dots> = (s @ concat es) ! length s" using lt by (intro nth_take)
    also have "\<dots> = hd (concat es)" using ne by (simp add: nth_append hd_conv_nth)
    finally have l: "is_lead (e ! length s)" using hd1 enc_props(3)[OF e1] by simp
    from s obtain n where n: "length s = Suc n" by (cases s) auto
    with lt have "e ! length s = tl e ! n" "n < length (tl e)" by (cases e; simp)+
    then have "e ! length s \<in> set (tl e)" by (metis nth_mem)
    with enc_props(4)[OF e] l show False by blast
  qed
  then show ?thesis ..
qed

lemma TrimSpace_space_left: "all_space w \<Longrightarrow> TrimSpace (w @ s) = TrimSpace s"
  using all_space_concat[of w] by (auto simp: TrimSpace_def trim_left_concat)

lemma TrimSpace_concat_right:
  "set es \<subseteq> set space_encodings \<Longrightarrow> TrimSpace (s @ concat es) = TrimSpace s"
proof (induction s rule: trim_left.induct)
  case (1 s)
  show ?case
  proof (cases "leading_space s")
    case None
    show ?thesis
    proof (cases "s = []")
      case True
      then show ?thesis
        using trim_left_concat[OF "1.prems", of "[]"] by (simp add: TrimSpace_def)
    next
      case False
      from leading_space_boundary[OF False None "1.prems"] None show ?thesis
        by (simp add: TrimSpace_def trim_left_None trim_right_concat[OF "1.prems"])
    qed
  next
    case (Some e)
    from leading_space_Some[OF Some] have e: "e \<in> set space_encodings"
      and t: "take (length e) s = e" by simp_all
    have s: "s = e @ drop (length e) s" using t append_take_drop_id[of "length e" s] by simp
    have "TrimSpace (s @ concat es) = TrimSpace (e @ (drop (length e) s @ concat es))"
      using s by (metis append_assoc)
    also have "\<dots> = TrimSpace (drop (length e) s @ concat es)"
      by (simp only: TrimSpace_def trim_left_enc[OF e])
    also have "\<dots> = TrimSpace (drop (length e) s)" by (rule "1.IH"[OF Some "1.prems"])
    also have "\<dots> = TrimSpace (e @ drop (length e) s)"
      by (simp only: TrimSpace_def trim_left_enc[OF e])
    also have "\<dots> = TrimSpace s" using s by simp
    finally show ?thesis .
  qed
qed

lemma TrimSpace_space_right: "all_space w \<Longrightarrow> TrimSpace (s @ w) = TrimSpace s"
  using all_space_concat[of w] by (auto simp: TrimSpace_concat_right)

lemma parseTag_loop_trim: "TrimSpace a = TrimSpace b \<Longrightarrow> parseTag_loop f a = parseTag_loop f b"
  by (subst parseTag_loop_tokens, subst (2) parseTag_loop_tokens) simp


lemma parseTag_example_tight:
  "parseTag ''-n,--nm'' =
     Return (Inr \<lparr>flag.Short = [''n''], Long = [''nm''], Description = [],
                  MutexGroup = [], Accumulate = False, Obligatory = False\<rparr>)"
  by (simp add: tag_eval)

lemma parseTag_example_spaced:
  "parseTag '' -n , --nm '' =
     Return (Inl (Errorf (''Could not find a valid flag definition at the beginning of ''
        @ [CHR 0x22] @ ''-n , --nm'' @ [CHR 0x22])))"
  by (simp add: tag_eval)

lemma all_space_example: "all_space [CHR 0x20, CHR 0x09, CHR 0xC2, CHR 0xA0]"
  by (simp add: all_space_def trim_left.simps leading_space_def space_encodings_def)

text \<open>
  C7.  White space at the beginning and at the end of what is left of the tag is
  ignored at every turn of the loop, so white space before a token (at the beginning of
  the tag or behind the comma that ended the token before) and white space at the end
  of the tag do not change what \<open>parseTag\<close> returns.  White space between a token and
  the comma behind it is not ignored: \<open>optionRegexp\<close> wants the comma or the end of the
  tag directly behind the token, and \<open>parseTag\<close> fails.
\<close>

theorem parseTag_space_around:
  assumes "all_space w"
  shows "parseTag (w @ tag) = parseTag tag \<and> parseTag (tag @ w) = parseTag tag \<and>
         (\<forall>f r. parseTag_loop f (w @ r) = parseTag_loop f r \<and>
                parseTag_loop f (r @ w) = parseTag_loop f r)"
  using TrimSpace_space_left[OF assms] TrimSpace_space_right[OF assms]
  by (auto simp: parseTag_def intro: parseTag_loop_trim)

theorem parseTag_space_around_witness:
  "all_space [CHR 0x20, CHR 0x09, CHR 0xC2, CHR 0xA0] \<and>
   parseTag ([CHR 0x20, CHR 0x09, CHR 0xC2, CHR 0xA0] @ ''-n, --nm'') = parseTag ''-n, --nm'' \<and>
   parseTag (''-n, --nm'' @ [CHR 0x20, CHR 0x09, CHR 0xC2, CHR 0xA0]) = parseTag ''-n, --nm''"
  using parseTag_space_around[OF all_space_example, of "''-n, --nm''"] all_space_example
  by blast

theorem parseTag_space_before_comma_counterexample:
  "parseTag ''-n,--nm'' =
     Return (Inr \<lparr>flag.Short = [''n''], Long = [''nm''], Description = [],
                  MutexGroup = [], Accumulate = False, Obligatory = False\<rparr>) \<and>
   parseTag '' -n , --nm '' =
     Return (Inl (Errorf (''Could not find a valid flag definition at the beginning of ''
        @ [CHR 0x22] @ ''-n , --nm'' @ [CHR 0x22]))) \<and>
   parseTag '' -n , --nm '' \<noteq> parseTag ''-n,--nm''"
  unfolding parseTag_example_tight parseTag_example_spaced by simp

section \<open>Matching a token\<close>

lemma isShort_Cons: "isShort t \<longleftrightarrow> (\<exists>r. t = CHR ''-'' # r \<and> (\<forall>r'. r \<noteq> CHR ''-'' # r'))"
  by (cases t; cases "tl t") (auto simp: isShort_def HasPrefix_def)

lemma isLong_Cons: "isLong t \<longleftrightarrow> (\<exists>r. t = CHR ''-'' # CHR ''-'' # r)"
  by (cases t; cases "tl t") (auto simp: isLong_def HasPrefix_def)

text \<open>
  What \<open>Handles\<close> computes, in terms of the two fields: it returns true exactly for a
  token with a single leading dash (the next character is not a dash) whose first
  character after the dash is the field \<open>Short\<close>, and for a token with two leading
  dashes whose text after the two dashes is the field \<open>Long\<close>.  The second case
  compares with the field whatever it holds, the empty string included.
\<close>

lemma Handles_true_iff:
  "Handles f t = Return True \<longleftrightarrow>
     (\<exists>c rest. t = CHR ''-'' # c # rest \<and> c \<noteq> CHR ''-'' \<and> Flag.Short f = [c]) \<or>
     (\<exists>suffix. t = ''--'' @ suffix \<and> Flag.Long f = suffix)"
proof (cases "isShort t")
  case True
  then obtain r where t: "t = CHR ''-'' # r" and nd: "\<forall>r'. r \<noteq> CHR ''-'' # r'"
    by (auto simp: isShort_Cons)
  have nl: "\<not> isLong t" using t nd by (auto simp: isLong_Cons)
  show ?thesis
  proof (cases r)
    case Nil
    with t True show ?thesis by (simp add: Handles_def substr_def)
  next
    case (Cons c rest)
    with t True nl nd show ?thesis
      by (cases "[c] = Flag.Short f") (auto simp: Handles_def substr_def)
  qed
next
  case False
  show ?thesis
  proof (cases "isLong t")
    case True
    then obtain r where t: "t = CHR ''-'' # CHR ''-'' # r" by (auto simp: isLong_Cons)
    with False True show ?thesis by (auto simp: Handles_def substr_def)
  next
    case nl: False
    have "\<And>c rest. t = CHR ''-'' # c # rest \<Longrightarrow> c \<noteq> CHR ''-'' \<Longrightarrow> False"
      using False by (auto simp: isShort_Cons)
    moreover have "\<And>suffix. t = ''--'' @ suffix \<Longrightarrow> False"
      using nl by (auto simp: isLong_Cons)
    ultimately show ?thesis using False nl by (auto simp: Handles_def)
  qed
qed

text \<open>
  C3.  A flag without a long name has the empty string in \<open>Long\<close>: \<open>Name\<close> tests
  \<open>len(f.Long) > 0\<close> before it uses the field and falls back to the short name.
  \<open>Handles\<close> has no such test.  On the token \<open>--\<close>, which has two leading dashes and
  nothing behind them, it compares the empty rest with the empty field and returns
  true, for every flag without a long name, although no long name of the flag is the
  text behind the two dashes.
\<close>

theorem Handles_double_dash_without_long_name:
  "Handles (f\<lparr>Flag.Long := []\<rparr>) ''--'' = Return True \<and>
   Handles (mk_flag ''v'' [] False (BoolV False :: unit rvalue)) ''--'' = Return True \<and>
   Name (mk_flag ''v'' [] False (BoolV False :: unit rvalue)) = ''-v''"
  by (simp add: Handles_def isShort_def isLong_def HasPrefix_def substr_def Name_def mk_flag_def)

text \<open>
  C10.  On the one-character token \<open>-\<close> the test \<open>isShort\<close> holds and \<open>arg[1:2]\<close>
  is out of range: \<open>Handles\<close> panics.  On every token that does not start with a dash,
  and on every token that starts with a dash and has at least two characters,
  \<open>Handles\<close> returns.
\<close>

theorem Handles_panics_on_dash:
  "Handles f ''-'' = Panic SliceBoundsOutOfRange \<and>
   (\<forall>t. (HasPrefix t ''-'' \<longrightarrow> 2 \<le> length t) \<longrightarrow> (\<exists>b. Handles f t = Return b))"
proof (intro conjI allI impI)
  show "Handles f ''-'' = Panic SliceBoundsOutOfRange"
    by (simp add: Handles_def isShort_def HasPrefix_def substr_def)
next
  fix t :: string
  assume pre: "HasPrefix t ''-'' \<longrightarrow> 2 \<le> length t"
  show "\<exists>b. Handles f t = Return b"
  proof (cases "isShort t")
    case True
    then have "2 \<le> length t" using pre by (simp add: isShort_def)
    then have "substr t 1 2 = Return (take 1 (drop 1 t))" by (simp add: substr_def)
    with True show ?thesis
      by (cases "take 1 (drop 1 t) = Flag.Short f") (auto simp: Handles_def substr_def)
  next
    case False
    then show ?thesis by (auto simp: Handles_def substr_def isLong_def HasPrefix_def)
  qed
qed

theorem Handles_panics_on_dash_witness:
  "Handles (mk_flag ''a'' ''all'' False (BoolV False :: unit rvalue)) ''-'' =
     Panic SliceBoundsOutOfRange \<and>
   HasPrefix ''-a'' ''-'' \<and> 2 \<le> length ''-a'' \<and>
   Handles (mk_flag ''a'' ''all'' False (BoolV False :: unit rvalue)) ''-a'' = Return True \<and>
   \<not> HasPrefix ''status'' ''-'' \<and>
   Handles (mk_flag ''a'' ''all'' False (BoolV False :: unit rvalue)) ''status'' = Return False"
  using Handles_panics_on_dash [of "mk_flag ''a'' ''all'' False (BoolV False :: unit rvalue)"]
  by (simp add: Handles_def isShort_def isLong_def HasPrefix_def substr_def mk_flag_def)

section \<open>Consuming one occurrence\<close>

lemma setValue_Errorf:
  "setValue g v = Return (f', Some (Errorf m)) \<Longrightarrow> \<exists>n. m = ''Unsupported flag type: '' @ n"
  by (auto simp: setValue_def parserMap_def boolValueParser_def stringValueParser_def
        intValueParser_def helpValueParser_def ParseInt_def Let_def
      split: rvalue.splits marshal_result.splits option.splits if_splits prod.splits)

lemma Parse_needs:
  "NeedsExtraValue f \<Longrightarrow> rest = [] \<or> (isShort param \<and> 2 < length param) \<Longrightarrow>
   Parse f (param # rest) =
     Return (param # rest, f, Some (Errorf (''Flag '' @ Name f @ '' needs an argument'')))"
  unfolding Parse_def by (simp del: append.simps)

lemma Parse_once:
  "\<not> (NeedsExtraValue f \<and> (rest = [] \<or> (isShort param \<and> 2 < length param))) \<Longrightarrow>
   WasSpecified f \<Longrightarrow> \<not> IsMulti f \<Longrightarrow>
   Parse f (param # rest) =
     Return (param # rest, f,
       Some (Errorf (''Flag '' @ Name f @ '' can only be specified once'')))"
  unfolding Parse_def by (auto simp del: append.simps)

lemma Parse_consume_flag:
  "\<not> NeedsExtraValue f \<Longrightarrow> \<not> (WasSpecified f \<and> \<not> IsMulti f) \<Longrightarrow>
   Parse f (param # rest) =
     (case setValue (f\<lparr>WasSpecified := True\<rparr>) [] of
        Panic p \<Rightarrow> Panic p
      | Return (f', err) \<Rightarrow>
          Return (if isShort param \<and> 2 < length param then (''-'' @ drop 2 param) # rest
                  else rest, f', err))"
  unfolding Parse_def by (auto simp del: append.simps simp: Let_def split: outcome.splits)

lemma Parse_consume_value:
  "NeedsExtraValue f \<Longrightarrow> \<not> (isShort param \<and> 2 < length param) \<Longrightarrow>
   \<not> (WasSpecified f \<and> \<not> IsMulti f) \<Longrightarrow>
   Parse f (param # v # rest) =
     (case setValue (f\<lparr>WasSpecified := True\<rparr>) v of
        Panic p \<Rightarrow> Panic p
      | Return (f', err) \<Rightarrow> Return (rest, f', err))"
  unfolding Parse_def by (auto simp del: append.simps simp: Let_def split: outcome.splits)

lemma msg_distinct:
  "''Flag '' @ n @ '' needs an argument'' \<noteq> ''Flag '' @ n @ '' can only be specified once''"
  "''Flag '' @ n @ '' needs an argument'' \<noteq> ''Unsupported flag type: '' @ k"
  "''Flag '' @ n @ '' can only be specified once'' \<noteq> ''Unsupported flag type: '' @ k"
  by simp_all

text \<open>
  C2.  For a flag that needs an extra value and a non-empty argument list, \<open>Parse\<close>
  returns the error \<open>Flag X needs an argument\<close> (X the flag's \<open>Name\<close>) exactly when
  the list has fewer than two elements or its first token is short-style with more
  than two characters; whenever it returns that error, the returned list is the
  list it was given and the flag is unchanged (\<open>WasSpecified\<close> and the field
  included).
\<close>

theorem Parse_needs_argument:
  assumes "NeedsExtraValue f" and "args \<noteq> []"
  shows "((\<exists>args' f'. Parse f args =
             Return (args', f', Some (Errorf (''Flag '' @ Name f @ '' needs an argument''))))
          \<longleftrightarrow> (length args < 2 \<or> (isShort (hd args) \<and> 2 < length (hd args)))) \<and>
         (\<forall>args' f'. Parse f args =
             Return (args', f', Some (Errorf (''Flag '' @ Name f @ '' needs an argument'')))
          \<longrightarrow> args' = args \<and> f' = f)"
proof -
  obtain param rest where args: "args = param # rest" using assms(2) by (cases args) auto
  let ?c = "rest = [] \<or> (isShort param \<and> 2 < length param)"
  let ?e = "Errorf (''Flag '' @ Name f @ '' needs an argument'')"
  have c: "(length args < 2 \<or> (isShort (hd args) \<and> 2 < length (hd args))) \<longleftrightarrow> ?c"
    using args by (cases rest) auto
  show ?thesis
  proof (cases ?c)
    case True
    then have "Parse f args = Return (args, f, Some ?e)"
      using assms(1) args Parse_needs by blast
    with True c show ?thesis by simp
  next
    case False
    have "Parse f args \<noteq> Return (args', f', Some ?e)" for args' f'
    proof (cases "WasSpecified f \<and> \<not> IsMulti f")
      case True
      with False have "Parse f args = Return (args, f,
          Some (Errorf (''Flag '' @ Name f @ '' can only be specified once'')))"
        using args Parse_once[of f rest param] by blast
      then show ?thesis using msg_distinct(1)[of "Name f"] by simp
    next
      case ns: False
      show ?thesis
      proof
        assume p: "Parse f args = Return (args', f', Some ?e)"
        from False obtain v rest' where rest: "rest = v # rest'" by (cases rest) auto
        from False have "\<not> (isShort param \<and> 2 < length param)" by simp
        from Parse_consume_value[OF assms(1) this ns, of v rest'] p args rest
        have "setValue (f\<lparr>WasSpecified := True\<rparr>) v = Return (f', Some ?e)"
          by (simp del: append.simps split: outcome.splits prod.splits)
        from setValue_Errorf[OF this] show False using msg_distinct(2) by blast
      qed
    qed
    with False c show ?thesis by simp
  qed
qed


theorem Parse_needs_argument_witness:
  "NeedsExtraValue (mk_flag ''n'' ''name'' False (StringV [] :: unit rvalue)) \<and>
   Parse (mk_flag ''n'' ''name'' False (StringV [] :: unit rvalue)) [''--name''] =
     Return ([''--name''], mk_flag ''n'' ''name'' False (StringV []),
             Some (Errorf ''Flag --name needs an argument'')) \<and>
   Parse (mk_flag ''n'' ''name'' False (StringV [] :: unit rvalue)) [''-nx'', ''bob''] =
     Return ([''-nx'', ''bob''], mk_flag ''n'' ''name'' False (StringV []),
             Some (Errorf ''Flag --name needs an argument'')) \<and>
   Parse (mk_flag ''n'' ''name'' False (StringV [] :: unit rvalue)) [''--name'', ''bob''] =
     Return ([], mk_flag ''n'' ''name'' True (StringV ''bob''), None)"
  using Parse_needs_argument
    [of "mk_flag ''n'' ''name'' False (StringV [] :: unit rvalue)" "[''--name'']"]
  by (simp add: Parse_def NeedsExtraValue_def IsMulti_def Name_def mk_flag_def isShort_def
        HasPrefix_def setValue_def parserMap_def stringValueParser_def)


lemma IsMulti_NeedsExtraValue: "IsMulti f \<Longrightarrow> NeedsExtraValue f"
  by (auto simp: IsMulti_def NeedsExtraValue_def split: rvalue.splits)

lemma WasSpecified_update_same: "WasSpecified f \<Longrightarrow> f\<lparr>WasSpecified := True\<rparr> = f"
  by simp

text \<open>
  C5, as amended.  Let the flag be already specified and the argument list non-empty
  and not one that triggers the needs-argument check.  If the flag is not
  multi-valued, \<open>Parse\<close> returns the list unchanged, the flag unchanged and the error
  \<open>Flag X can only be specified once\<close>.  If it is multi-valued, the already-specified
  check is skipped: the flag token and its value are consumed and the outcome is
  that of \<open>setValue\<close> on the value.  \<open>setValue\<close> never appends: a slice field whose
  type is not a \<open>Marshaler\<close> gets the unsupported-type error and keeps its contents,
  and a slice field whose type is a \<open>Marshaler\<close> is replaced by the fresh instance.
\<close>

theorem Parse_already_specified:
  assumes "WasSpecified f" and "args \<noteq> []"
    and "\<not> (NeedsExtraValue f \<and>
            (length args < 2 \<or> (isShort (hd args) \<and> 2 < length (hd args))))"
  shows "(\<not> IsMulti f \<longrightarrow>
            Parse f args = Return (args, f,
              Some (Errorf (''Flag '' @ Name f @ '' can only be specified once'')))) \<and>
         (IsMulti f \<longrightarrow>
            Parse f args =
              (case setValue f (args ! 1) of
                 Panic p \<Rightarrow> Panic p
               | Return (f', err) \<Rightarrow> Return (drop 2 args, f', err))) \<and>
         (\<forall>n x. fvalue f = OtherV Slice n x \<longrightarrow>
            Parse f args =
              Return (drop 2 args, f, Some (Errorf (''Unsupported flag type: '' @ n)))) \<and>
         (\<forall>t x. fvalue f = MarshalerV t x \<and> Kind t = Slice \<longrightarrow>
            Parse f args =
              (case MarshalGoption t (Zero t) (args ! 1) of
                 MarshalReturns inst err \<Rightarrow>
                   Return (drop 2 args, f\<lparr>fvalue := MarshalerV t inst\<rparr>,
                           map_option MarshalerError err)
               | MarshalPanicsError e \<Rightarrow> Return (drop 2 args, f, Some (MarshalerError e))
               | MarshalPanicsOther \<Rightarrow> Panic InterfaceConversion))"
proof -
  obtain param rest where args: "args = param # rest" using assms(2) by (cases args) auto
  have c: "\<not> (NeedsExtraValue f \<and> (rest = [] \<or> (isShort param \<and> 2 < length param)))"
    using assms(3) args by (cases rest) auto
  have multi: "Parse f args =
      (case setValue f (args ! 1) of
         Panic p \<Rightarrow> Panic p
       | Return (f', err) \<Rightarrow> Return (drop 2 args, f', err))" if m: "IsMulti f"
  proof -
    have n: "NeedsExtraValue f" using m by (rule IsMulti_NeedsExtraValue)
    with c obtain v rest' where rest: "rest = v # rest'" by (cases rest) auto
    from c n have "\<not> (isShort param \<and> 2 < length param)" by simp
    from Parse_consume_value[OF n this, of v rest'] m assms(1) args rest
    show ?thesis
      by (simp add: WasSpecified_update_same[OF assms(1)] split: outcome.splits)
  qed
  have once: "Parse f args = Return (args, f,
      Some (Errorf (''Flag '' @ Name f @ '' can only be specified once'')))"
    if "\<not> IsMulti f"
    using Parse_once[OF c assms(1) that] args by simp
  have other: "Parse f args =
      Return (drop 2 args, f, Some (Errorf (''Unsupported flag type: '' @ n)))"
    if v: "fvalue f = OtherV Slice n x" for n x
  proof -
    have "IsMulti f" using v by (simp add: IsMulti_def)
    from multi[OF this] v show ?thesis
      by (simp add: setValue_def parserMap_def TypeName_def del: append.simps)
  qed
  have marsh: "Parse f args =
      (case MarshalGoption t (Zero t) (args ! 1) of
         MarshalReturns inst err \<Rightarrow>
           Return (drop 2 args, f\<lparr>fvalue := MarshalerV t inst\<rparr>,
                   map_option MarshalerError err)
       | MarshalPanicsError e \<Rightarrow> Return (drop 2 args, f, Some (MarshalerError e))
       | MarshalPanicsOther \<Rightarrow> Panic InterfaceConversion)"
    if v: "fvalue f = MarshalerV t x" and k: "Kind t = Slice" for t x
  proof -
    have "IsMulti f" using v k by (simp add: IsMulti_def)
    from multi[OF this] v k show ?thesis
      by (simp add: setValue_def split: marshal_result.splits)
  qed
  from multi once other marsh show ?thesis by blast
qed

theorem Parse_already_specified_witness:
  "Parse (mk_flag ''n'' ''name'' True (StringV ''bob'' :: string rvalue)) [''--name'', ''eve''] =
     Return ([''--name'', ''eve''], mk_flag ''n'' ''name'' True (StringV ''bob''),
             Some (Errorf ''Flag --name can only be specified once'')) \<and>
   Parse (mk_flag ''t'' ''tag'' True (OtherV Slice [] ''x'')) [''--tag'', ''y''] =
     Return ([], mk_flag ''t'' ''tag'' True (OtherV Slice [] ''x''),
             Some (Errorf ''Unsupported flag type: '')) \<and>
   Parse (mk_flag ''t'' ''tag'' True (MarshalerV tags_type [''x''])) [''--tag'', ''y''] =
     Return ([], mk_flag ''t'' ''tag'' True (MarshalerV tags_type []), None)"
  using
    Parse_already_specified
      [of "mk_flag ''n'' ''name'' True (StringV ''bob'' :: string rvalue)" "[''--name'', ''eve'']"]
    Parse_already_specified
      [of "mk_flag ''t'' ''tag'' True (OtherV Slice [] ''x'')" "[''--tag'', ''y'']"]
    Parse_already_specified
      [of "mk_flag ''t'' ''tag'' True (MarshalerV tags_type [''x''])" "[''--tag'', ''y'']"]
  by (simp add: NeedsExtraValue_def IsMulti_def Name_def mk_flag_def isShort_def
        HasPrefix_def tags_type_def setValue_def parserMap_def TypeName_def)

text \<open>
  C5 as stated fails: an already specified flag over a plain slice field (whose type
  has no name) is multi-valued, yet \<open>Parse\<close> on \<open>--tag y\<close> returns the unsupported-type
  error and the field still holds exactly what it held.
\<close>

theorem Parse_multi_counterexample:
  "WasSpecified (mk_flag ''t'' ''tag'' True (OtherV Slice [] [''x''])) \<and>
   IsMulti (mk_flag ''t'' ''tag'' True (OtherV Slice [] [''x''])) \<and>
   Parse (mk_flag ''t'' ''tag'' True (OtherV Slice [] [''x''])) [''--tag'', ''y''] =
     Return ([], mk_flag ''t'' ''tag'' True (OtherV Slice [] [''x'']),
             Some (Errorf ''Unsupported flag type: ''))"
  by (simp add: Parse_def NeedsExtraValue_def IsMulti_def mk_flag_def isShort_def
        HasPrefix_def setValue_def parserMap_def TypeName_def)


lemma Parse_bool_flag:
  assumes "fvalue f = BoolV b" and "\<not> WasSpecified f"
  shows "Parse f (param # rest) =
     Return (if isShort param \<and> 2 < length param then (''-'' @ drop 2 param) # rest else rest,
             f\<lparr>WasSpecified := True, fvalue := BoolV True\<rparr>, None)"
proof -
  have n: "\<not> NeedsExtraValue f" using assms(1) by (simp add: NeedsExtraValue_def)
  have s: "setValue (f\<lparr>WasSpecified := True\<rparr>) [] =
      Return (f\<lparr>WasSpecified := True, fvalue := BoolV True\<rparr>, None)"
    using assms(1) by (simp add: setValue_def parserMap_def boolValueParser_def)
  show ?thesis using Parse_consume_flag[OF n, of param rest] assms(2) s
    by (simp del: append.simps)
qed

lemma Parse_help_flag:
  assumes "fvalue f = HelpV h" and "\<not> WasSpecified f"
  shows "Parse f (param # rest) =
     Return (if isShort param \<and> 2 < length param then (''-'' @ drop 2 param) # rest else rest,
             f\<lparr>WasSpecified := True\<rparr>, Some ErrHelpRequest)"
proof -
  have n: "\<not> NeedsExtraValue f" using assms(1) by (simp add: NeedsExtraValue_def)
  have s: "setValue (f\<lparr>WasSpecified := True\<rparr>) [] =
      Return (f\<lparr>WasSpecified := True\<rparr>, Some ErrHelpRequest)"
    using assms(1) by (simp add: setValue_def parserMap_def helpValueParser_def)
  show ?thesis using Parse_consume_flag[OF n, of param rest] assms(2) s
    by (simp del: append.simps)
qed

lemma Parse_cluster_step:
  assumes "\<not> NeedsExtraValue f" and "\<not> WasSpecified f"
    and "isShort param" and "2 < length param"
  shows "\<exists>f' err. Parse f (param # rest) = Return ((''-'' @ drop 2 param) # rest, f', err) \<and>
         WasSpecified f' \<and>
         length ((''-'' @ drop 2 param) # rest) = length (param # rest) \<and>
         length (''-'' @ drop 2 param) + 1 = length param \<and>
         (\<forall>b. fvalue f = BoolV b \<longrightarrow> fvalue f' = BoolV True \<and> err = None)"
proof -
  from assms(1) consider b where "fvalue f = BoolV b" | h where "fvalue f = HelpV h"
    by (auto simp: NeedsExtraValue_def split: rvalue.splits)
  then show ?thesis
  proof cases
    case 1
    from Parse_bool_flag[OF 1 assms(2), of param rest] assms(3,4) show ?thesis by auto
  next
    case 2
    from Parse_help_flag[OF 2 assms(2), of param rest] assms(3,4) 2 show ?thesis by auto
  qed
qed

lemma Parse_abc:
  assumes "Flag.Short fa = ''a''" "Flag.Short fb = ''b''" "Flag.Short fc = ''c''"
    and v: "fvalue fa = BoolV x" "fvalue fb = BoolV y" "fvalue fc = BoolV z"
    and n: "\<not> WasSpecified fa" "\<not> WasSpecified fb" "\<not> WasSpecified fc"
  shows "Handles fa ''-abc'' = Return True \<and>
         Parse fa [''-abc''] =
           Return ([''-bc''], fa\<lparr>WasSpecified := True, fvalue := BoolV True\<rparr>, None) \<and>
         Handles fb ''-bc'' = Return True \<and>
         Parse fb [''-bc''] =
           Return ([''-c''], fb\<lparr>WasSpecified := True, fvalue := BoolV True\<rparr>, None) \<and>
         Handles fc ''-c'' = Return True \<and>
         Parse fc [''-c''] =
           Return ([], fc\<lparr>WasSpecified := True, fvalue := BoolV True\<rparr>, None)"
proof -
  have sh: "isShort ''-abc''" "isShort ''-bc''" "isShort ''-c''"
    by (simp_all add: isShort_def HasPrefix_def)
  have "Parse fa [''-abc''] =
      Return ([''-bc''], fa\<lparr>WasSpecified := True, fvalue := BoolV True\<rparr>, None)"
    using Parse_bool_flag[OF v(1) n(1), of "''-abc''" "[]"] sh by simp
  moreover have "Parse fb [''-bc''] =
      Return ([''-c''], fb\<lparr>WasSpecified := True, fvalue := BoolV True\<rparr>, None)"
    using Parse_bool_flag[OF v(2) n(2), of "''-bc''" "[]"] sh by simp
  moreover have "Parse fc [''-c''] =
      Return ([], fc\<lparr>WasSpecified := True, fvalue := BoolV True\<rparr>, None)"
    using Parse_bool_flag[OF v(3) n(3), of "''-c''" "[]"] sh by simp
  moreover have "Handles fa ''-abc'' = Return True" "Handles fb ''-bc'' = Return True"
    "Handles fc ''-c'' = Return True"
    using assms(1-3) sh by (simp_all add: Handles_def substr_def)
  ultimately show ?thesis by simp
qed

text \<open>
  C1, as amended.  For a flag that needs no extra value and has not been specified
  yet, and a first token that is short-style with more than two characters, \<open>Parse\<close>
  returns a list of the same length whose first token is a dash followed by the
  token without its first two characters (one character shorter than the token), and
  the flag is marked as specified; a boolean field is set to true with no error.
  Three boolean flags \<open>a\<close>, \<open>b\<close>, \<open>c\<close>, none specified yet, each handle the token that
  the one before left behind, starting from \<open>-abc\<close>, and all three fields end up true
  with the argument list empty.
\<close>

theorem Parse_cluster:
  "(\<forall>(f :: 'm Flag) param rest.
      \<not> NeedsExtraValue f \<and> \<not> WasSpecified f \<and> isShort param \<and> 2 < length param \<longrightarrow>
      (\<exists>f' err. Parse f (param # rest) = Return ((''-'' @ drop 2 param) # rest, f', err) \<and>
         WasSpecified f' \<and>
         length ((''-'' @ drop 2 param) # rest) = length (param # rest) \<and>
         length (''-'' @ drop 2 param) + 1 = length param \<and>
         (\<forall>b. fvalue f = BoolV b \<longrightarrow> fvalue f' = BoolV True \<and> err = None))) \<and>
   (\<forall>(fa :: 'm Flag) (fb :: 'm Flag) (fc :: 'm Flag).
      Flag.Short fa = ''a'' \<and> Flag.Short fb = ''b'' \<and> Flag.Short fc = ''c'' \<and>
      (\<exists>x. fvalue fa = BoolV x) \<and> (\<exists>y. fvalue fb = BoolV y) \<and> (\<exists>z. fvalue fc = BoolV z) \<and>
      \<not> WasSpecified fa \<and> \<not> WasSpecified fb \<and> \<not> WasSpecified fc \<longrightarrow>
      (\<exists>fa' fb' fc'.
         Handles fa ''-abc'' = Return True \<and>
         Parse fa [''-abc''] = Return ([''-bc''], fa', None) \<and>
         Handles fb ''-bc'' = Return True \<and>
         Parse fb [''-bc''] = Return ([''-c''], fb', None) \<and>
         Handles fc ''-c'' = Return True \<and>
         Parse fc [''-c''] = Return ([], fc', None) \<and>
         fvalue fa' = BoolV True \<and> fvalue fb' = BoolV True \<and> fvalue fc' = BoolV True))"
proof (rule conjI)
  show "\<forall>(f :: 'm Flag) param rest.
      \<not> NeedsExtraValue f \<and> \<not> WasSpecified f \<and> isShort param \<and> 2 < length param \<longrightarrow>
      (\<exists>f' err. Parse f (param # rest) = Return ((''-'' @ drop 2 param) # rest, f', err) \<and>
         WasSpecified f' \<and>
         length ((''-'' @ drop 2 param) # rest) = length (param # rest) \<and>
         length (''-'' @ drop 2 param) + 1 = length param \<and>
         (\<forall>b. fvalue f = BoolV b \<longrightarrow> fvalue f' = BoolV True \<and> err = None))"
    using Parse_cluster_step by blast
next
  show "\<forall>(fa :: 'm Flag) (fb :: 'm Flag) (fc :: 'm Flag).
      Flag.Short fa = ''a'' \<and> Flag.Short fb = ''b'' \<and> Flag.Short fc = ''c'' \<and>
      (\<exists>x. fvalue fa = BoolV x) \<and> (\<exists>y. fvalue fb = BoolV y) \<and> (\<exists>z. fvalue fc = BoolV z) \<and>
      \<not> WasSpecified fa \<and> \<not> WasSpecified fb \<and> \<not> WasSpecified fc \<longrightarrow>
      (\<exists>fa' fb' fc'.
         Handles fa ''-abc'' = Return True \<and>
         Parse fa [''-abc''] = Return ([''-bc''], fa', None) \<and>
         Handles fb ''-bc'' = Return True \<and>
         Parse fb [''-bc''] = Return ([''-c''], fb', None) \<and>
         Handles fc ''-c'' = Return True \<and>
         Parse fc [''-c''] = Return ([], fc', None) \<and>
         fvalue fa' = BoolV True \<and> fvalue fb' = BoolV True \<and> fvalue fc' = BoolV True)"
  proof (intro allI impI)
    fix fa fb fc :: "'m Flag"
    assume a: "Flag.Short fa = ''a'' \<and> Flag.Short fb = ''b'' \<and> Flag.Short fc = ''c'' \<and>
      (\<exists>x. fvalue fa = BoolV x) \<and> (\<exists>y. fvalue fb = BoolV y) \<and> (\<exists>z. fvalue fc = BoolV z) \<and>
      \<not> WasSpecified fa \<and> \<not> WasSpecified fb \<and> \<not> WasSpecified fc"
    then obtain x y z where v: "fvalue fa = BoolV x" "fvalue fb = BoolV y" "fvalue fc = BoolV z"
      by blast
    from a have s: "Flag.Short fa = ''a''" "Flag.Short fb = ''b''" "Flag.Short fc = ''c''"
      and n: "\<not> WasSpecified fa" "\<not> WasSpecified fb" "\<not> WasSpecified fc"
      by blast+
    let ?u = "\<lambda>g :: 'm Flag. g\<lparr>WasSpecified := True, fvalue := BoolV True\<rparr>"
    from Parse_abc[OF s v n]
    have "Handles fa ''-abc'' = Return True \<and>
         Parse fa [''-abc''] = Return ([''-bc''], ?u fa, None) \<and>
         Handles fb ''-bc'' = Return True \<and>
         Parse fb [''-bc''] = Return ([''-c''], ?u fb, None) \<and>
         Handles fc ''-c'' = Return True \<and>
         Parse fc [''-c''] = Return ([], ?u fc, None) \<and>
         fvalue (?u fa) = BoolV True \<and> fvalue (?u fb) = BoolV True \<and>
         fvalue (?u fc) = BoolV True"
      by simp
    then show "\<exists>fa' fb' fc'.
         Handles fa ''-abc'' = Return True \<and>
         Parse fa [''-abc''] = Return ([''-bc''], fa', None) \<and>
         Handles fb ''-bc'' = Return True \<and>
         Parse fb [''-bc''] = Return ([''-c''], fb', None) \<and>
         Handles fc ''-c'' = Return True \<and>
         Parse fc [''-c''] = Return ([], fc', None) \<and>
         fvalue fa' = BoolV True \<and> fvalue fb' = BoolV True \<and> fvalue fc' = BoolV True"
      by blast
  qed
qed

theorem Parse_cluster_witness:
  "\<not> NeedsExtraValue (mk_flag ''a'' [] False (BoolV False :: unit rvalue)) \<and>
   isShort ''-abc'' \<and> 2 < length ''-abc'' \<and>
   Parse (mk_flag ''a'' [] False (BoolV False :: unit rvalue)) [''-abc'', ''x''] =
     Return ([''-bc'', ''x''], mk_flag ''a'' [] True (BoolV True), None) \<and>
   Parse (mk_flag ''b'' [] False (BoolV False :: unit rvalue)) [''-bc'', ''x''] =
     Return ([''-c'', ''x''], mk_flag ''b'' [] True (BoolV True), None) \<and>
   Parse (mk_flag ''c'' [] False (BoolV False :: unit rvalue)) [''-c'', ''x''] =
     Return ([''x''], mk_flag ''c'' [] True (BoolV True), None)"
  using Parse_cluster[THEN conjunct1, rule_format,
      of "mk_flag ''a'' [] False (BoolV False :: unit rvalue)" "''-abc''" "[''x'']"]
  by (simp add: Parse_def NeedsExtraValue_def IsMulti_def mk_flag_def isShort_def
        HasPrefix_def setValue_def parserMap_def boolValueParser_def)

text \<open>
  C1 as stated fails for a flag that was already specified: the list comes back
  unchanged with the already-specified error, so its first token is still the whole
  cluster.
\<close>

theorem Parse_cluster_counterexample:
  "\<not> NeedsExtraValue (mk_flag ''a'' [] True (BoolV True :: unit rvalue)) \<and>
   isShort ''-abc'' \<and> 2 < length ''-abc'' \<and>
   Parse (mk_flag ''a'' [] True (BoolV True :: unit rvalue)) [''-abc''] =
     Return ([''-abc''], mk_flag ''a'' [] True (BoolV True),
             Some (Errorf ''Flag -a can only be specified once'')) \<and>
   ''-abc'' \<noteq> ''-'' @ drop 2 ''-abc''"
  by (simp add: Parse_def NeedsExtraValue_def IsMulti_def mk_flag_def isShort_def
        HasPrefix_def Name_def)

section \<open>Self-converting fields\<close>

text \<open>
  C4.  When the field's type implements \<open>Marshaler\<close> and \<open>MarshalGoption\<close>, called on
  the freshly constructed instance, returns an error, \<open>setValue\<close> returns that error
  and the field holds the fresh instance as the method left it; what the field held
  before plays no part in the result.
\<close>

theorem setValue_marshal_error_overwrites:
  assumes "fvalue f = MarshalerV t old"
    and "MarshalGoption t (if Kind t = Ptr then NewElem t else Zero t) s =
           MarshalReturns inst (Some e)"
  shows "setValue f s = Return (f\<lparr>fvalue := MarshalerV t inst\<rparr>, Some (MarshalerError e)) \<and>
         (\<forall>old'. setValue (f\<lparr>fvalue := MarshalerV t old'\<rparr>) s =
            Return (f\<lparr>fvalue := MarshalerV t inst\<rparr>, Some (MarshalerError e)))"
  using assms by (simp add: setValue_def)

theorem setValue_marshal_error_overwrites_witness:
  "setValue (mk_flag ''t'' ''text'' False (MarshalerV (text_type OtherKind) ''old'')) [] =
     Return (mk_flag ''t'' ''text'' False (MarshalerV (text_type OtherKind) []),
             Some (MarshalerError ''empty''))"
  using setValue_marshal_error_overwrites
    [of "mk_flag ''t'' ''text'' False (MarshalerV (text_type OtherKind) ''old'')"
        "text_type OtherKind" "''old''" "[]" "[]" "''empty''"]
  by (simp add: mk_flag_def text_type_def)

section \<open>The integer converter\<close>

lemma dec_from_Cons [simp]: "dec_from n (c # cs) = dec_from (n * 10 + digit_val c) cs"
  by (simp add: dec_from_def)

lemma dec_from_Nil [simp]: "dec_from n [] = n"
  by (simp add: dec_from_def)

lemma dec_from_ge: "n \<le> dec_from n ds"
proof (induction ds arbitrary: n)
  case Nil
  show ?case by simp
next
  case (Cons c cs)
  have "n \<le> n * 10 + digit_val c" by simp
  also have "\<dots> \<le> dec_from (n * 10 + digit_val c) cs" by (rule Cons.IH)
  finally show ?case by simp
qed

lemma digit_val_le: "is_digit c \<Longrightarrow> digit_val c \<le> 9"
  by (auto simp: is_digit_def digit_val_def)

lemma cutoff_ge: "K div 10 + 1 \<le> n \<Longrightarrow> (K::nat) < n * 10"
  by presburger

lemma cutoff_less: "\<not> K div 10 + 1 \<le> n \<Longrightarrow> n * 10 \<le> (K::nat)"
  by presburger

lemma mod_Suc_small: "x \<le> K \<Longrightarrow> x mod (K + 1) = (x::nat)"
  by simp

lemma mod_Suc_wrap: "K < x \<Longrightarrow> x < 2 * (K + 1) \<Longrightarrow> x mod (K + 1) = x - (K + 1)"
  for x :: nat
  by (simp add: mod_if)

lemma two_64: "(2::nat) ^ 64 = maxUint64 + 1"
  by (simp add: maxUint64_def)

lemma ParseUint_loop_step:
  "ParseUint_loop n (c # cs) =
     (if \<not> is_digit c then (0, Some ErrSyntax)
      else if n \<ge> maxUint64 div 10 + 1 then (maxUint64, Some ErrRange)
      else if (n * 10 mod (maxUint64 + 1) + digit_val c) mod (maxUint64 + 1)
                < n * 10 mod (maxUint64 + 1)
      then (maxUint64, Some ErrRange)
      else if (n * 10 mod (maxUint64 + 1) + digit_val c) mod (maxUint64 + 1) > maxUint64
      then (maxUint64, Some ErrRange)
      else ParseUint_loop ((n * 10 mod (maxUint64 + 1) + digit_val c) mod (maxUint64 + 1)) cs)"
  unfolding ParseUint_loop.simps two_64 Let_def by auto

lemma ParseUint_loop_digits:
  "list_all is_digit ds \<Longrightarrow> n \<le> maxUint64 \<Longrightarrow>
   ParseUint_loop n ds =
     (if dec_from n ds \<le> maxUint64 then (dec_from n ds, None) else (maxUint64, Some ErrRange))"
proof (induction ds arbitrary: n)
  case Nil
  then show ?case by simp
next
  case (Cons c cs)
  from Cons.prems have d: "is_digit c" and ds: "list_all is_digit cs" by simp_all
  let ?K = maxUint64
  let ?m = "n * 10 + digit_val c"
  have ge: "?m \<le> dec_from ?m cs" by (rule dec_from_ge)
  have d9: "digit_val c \<le> 9" using d by (rule digit_val_le)
  show ?case
  proof (cases "n \<ge> ?K div 10 + 1")
    case True
    from cutoff_ge[OF True] have "?m > ?K" by simp
    with ge have "\<not> dec_from ?m cs \<le> ?K" by simp
    with True d show ?thesis by (simp only: ParseUint_loop_step dec_from_Cons if_True if_False simp_thms)
  next
    case False
    from cutoff_less[OF False] have le10: "n * 10 \<le> ?K" .
    then have n10: "n * 10 mod (?K + 1) = n * 10" by (rule mod_Suc_small)
    show ?thesis
    proof (cases "?m \<le> ?K")
      case True
      then have m: "?m mod (?K + 1) = ?m" by (rule mod_Suc_small)
      have a: "\<not> ?m < n * 10" by simp
      have b: "\<not> ?m > ?K" using True by simp
      show ?thesis
        using Cons.IH[OF ds True] False d a b
        by (simp only: ParseUint_loop_step dec_from_Cons n10 m if_True if_False simp_thms)
    next
      case big: False
      then have k: "?K < ?m" by simp
      have "?m < 2 * (?K + 1)" using le10 d9 by (simp add: maxUint64_def)
      from mod_Suc_wrap[OF k this] have m: "?m mod (?K + 1) = ?m - (?K + 1)" .
      have a: "?m - (?K + 1) < n * 10" using d9 k by (simp add: maxUint64_def)
      from big ge have "\<not> dec_from ?m cs \<le> ?K" by simp
      with False d a show ?thesis
        by (simp only: ParseUint_loop_step dec_from_Cons n10 m if_True if_False simp_thms)
    qed
  qed
qed

lemma ParseUint_loop_nondigit:
  "\<not> list_all is_digit ds \<Longrightarrow>
   ParseUint_loop n ds = (0, Some ErrSyntax) \<or> ParseUint_loop n ds = (maxUint64, Some ErrRange)"
  by (induction ds arbitrary: n) (auto simp: Let_def)


lemma ParseUint_digits:
  "ds \<noteq> [] \<Longrightarrow> list_all is_digit ds \<Longrightarrow>
   ParseUint ds =
     (if dec_from 0 ds \<le> maxUint64 then (dec_from 0 ds, None) else (maxUint64, Some ErrRange))"
  by (simp add: ParseUint_def ParseUint_loop_digits)

lemma ParseUint_bad:
  "ds = [] \<or> \<not> list_all is_digit ds \<Longrightarrow>
   ParseUint ds = (0, Some ErrSyntax) \<or> ParseUint ds = (maxUint64, Some ErrRange)"
  using ParseUint_loop_nondigit[of ds 0] by (auto simp: ParseUint_def)

lemma wrap64_small: "- (2 ^ 63) \<le> x \<Longrightarrow> x < 2 ^ 63 \<Longrightarrow> wrap64 x = x"
  by (simp add: wrap64_def)

lemma wrap64_min: "wrap64 (2 ^ 63) = - (2 ^ 63)"
  by (simp add: wrap64_def)

text \<open>What \<open>ParseInt\<close> does once the sign is picked off, in terms of \<open>ParseUint\<close>.\<close>

lemma ParseInt_unfold:
  "s \<noteq> [] \<Longrightarrow>
   ParseInt s =
     (let neg = (hd s = CHR ''-'');
          s1 = (if hd s = CHR ''+'' \<or> hd s = CHR ''-'' then tl s else s);
          un = fst (ParseUint s1); err = snd (ParseUint s1)
      in if err = Some ErrSyntax then (0, Some (NumError ''ParseInt'' s ErrSyntax))
         else if \<not> neg \<and> un \<ge> 2 ^ 63
         then (2 ^ 63 - 1, Some (NumError ''ParseInt'' s ErrRange))
         else if neg \<and> un > 2 ^ 63
         then (- (2 ^ 63), Some (NumError ''ParseInt'' s ErrRange))
         else (if neg then wrap64 (- wrap64 (int un)) else wrap64 (int un), None))"
  unfolding ParseInt_def Let_def
  by (cases "snd (ParseUint (if hd s = CHR ''+'' \<or> hd s = CHR ''-'' then tl s else s))"
      rule: option.exhaust[case_names None Some];
      cases "the (snd (ParseUint (if hd s = CHR ''+'' \<or> hd s = CHR ''-'' then tl s else s)))")
     (auto simp: case_prod_beta)


lemma unsigned_part_hd:
  "s \<noteq> [] \<Longrightarrow> (if hd s = CHR ''+'' \<or> hd s = CHR ''-'' then tl s else s) = unsigned_part s"
  by (cases s) (auto simp: unsigned_part_def)

lemma signed_decimal_iff:
  "signed_decimal s \<longleftrightarrow> unsigned_part s \<noteq> [] \<and> list_all is_digit (unsigned_part s)"
  by (simp add: signed_decimal_def)

lemma int_of_decimal_eq:
  "s \<noteq> [] \<Longrightarrow> int_of_decimal s =
     (if hd s = CHR ''-'' then - int (dec_from 0 (unsigned_part s))
      else int (dec_from 0 (unsigned_part s)))"
  by (cases s) (auto simp: int_of_decimal_def unsigned_part_def)

lemma pow2_less_int: "(2 ^ k < n) = ((2::int) ^ k < int n)"
  using of_nat_less_iff[of "2 ^ k" n, where ?'a = int] by simp

lemma pow2_le_int: "(2 ^ k \<le> n) = ((2::int) ^ k \<le> int n)"
  using of_nat_le_iff[of "2 ^ k" n, where ?'a = int] by simp

lemma ParseInt_decimal:
  assumes "signed_decimal s"
  shows "ParseInt s =
     (if - (2 ^ 63) \<le> int_of_decimal s \<and> int_of_decimal s < 2 ^ 63
      then (int_of_decimal s, None)
      else (if hd s = CHR ''-'' then - (2 ^ 63) else 2 ^ 63 - 1,
            Some (NumError ''ParseInt'' s ErrRange)))"
proof -
  let ?u = "unsigned_part s"
  let ?d = "dec_from 0 ?u"
  from assms have u: "?u \<noteq> []" "list_all is_digit ?u" by (simp_all add: signed_decimal_iff)
  then have s: "s \<noteq> []" by (auto simp: unsigned_part_def)
  have pu: "ParseUint ?u =
      (if ?d \<le> maxUint64 then (?d, None) else (maxUint64, Some ErrRange))"
    using u by (rule ParseUint_digits)
  have K: "maxUint64 = 2 * 2 ^ 63 - 1" by (simp add: maxUint64_def)
  show ?thesis
  proof (cases "?d \<le> maxUint64")
    case False
    then have "2 ^ 64 \<le> ?d" by (simp add: maxUint64_def)
    then have big: "int ?d \<ge> 2 ^ 64" by (simp only: pow2_le_int)
    from False pu have p: "fst (ParseUint ?u) = maxUint64" "snd (ParseUint ?u) = Some ErrRange"
      by simp_all
    have m: "maxUint64 \<ge> 2 ^ 63" "maxUint64 > 2 ^ 63" by (simp_all add: maxUint64_def)
    show ?thesis
      unfolding ParseInt_unfold[OF s] Let_def unsigned_part_hd[OF s] p int_of_decimal_eq[OF s]
      using m big by auto
  next
    case True
    with pu have p: "fst (ParseUint ?u) = ?d" "snd (ParseUint ?u) = None" by simp_all
    show ?thesis
    proof (cases "hd s = CHR ''-''")
      case neg: True
      show ?thesis
      proof (cases "?d > 2 ^ 63")
        case True
        then have "int ?d > 2 ^ 63" by (simp only: pow2_less_int)
        with neg True show ?thesis
          unfolding ParseInt_unfold[OF s] Let_def unsigned_part_hd[OF s] p
            int_of_decimal_eq[OF s]
          by auto
      next
        case False
        then have le: "int ?d \<le> 2 ^ 63" by (simp only: pow2_less_int not_less)
        have w: "wrap64 (- wrap64 (int ?d)) = - int ?d"
        proof (cases "int ?d = 2 ^ 63")
          case True
          then show ?thesis by (simp add: wrap64_def)
        next
          case False
          with le have lt: "int ?d < 2 ^ 63" by simp
          then have "wrap64 (int ?d) = int ?d" by (intro wrap64_small) simp_all
          moreover have "wrap64 (- int ?d) = - int ?d" using lt by (intro wrap64_small) simp_all
          ultimately show ?thesis by simp
        qed
        from neg False le w show ?thesis
          unfolding ParseInt_unfold[OF s] Let_def unsigned_part_hd[OF s] p
            int_of_decimal_eq[OF s]
          by auto
      qed
    next
      case pos: False
      show ?thesis
      proof (cases "?d \<ge> 2 ^ 63")
        case True
        then have "int ?d \<ge> 2 ^ 63" by (simp only: pow2_le_int)
        with pos True show ?thesis
          unfolding ParseInt_unfold[OF s] Let_def unsigned_part_hd[OF s] p
            int_of_decimal_eq[OF s]
          by auto
      next
        case False
        then have lt: "int ?d < 2 ^ 63" by (simp only: pow2_le_int not_le)
        then have "wrap64 (int ?d) = int ?d" by (intro wrap64_small) simp_all
        with pos False lt show ?thesis
          unfolding ParseInt_unfold[OF s] Let_def unsigned_part_hd[OF s] p
            int_of_decimal_eq[OF s]
          by auto
      qed
    qed
  qed
qed

lemma ParseInt_not_decimal:
  assumes "\<not> signed_decimal s"
  shows "\<exists>n k. ParseInt s = (n, Some (NumError ''ParseInt'' s k))"
proof (cases "s = []")
  case True
  then show ?thesis by (simp add: ParseInt_def)
next
  case False
  let ?u = "unsigned_part s"
  from assms have "?u = [] \<or> \<not> list_all is_digit ?u" by (simp add: signed_decimal_iff)
  from ParseUint_bad[OF this]
  consider "fst (ParseUint ?u) = 0" "snd (ParseUint ?u) = Some ErrSyntax"
    | "fst (ParseUint ?u) = maxUint64" "snd (ParseUint ?u) = Some ErrRange"
    by auto
  then show ?thesis
  proof cases
    case 1
    then show ?thesis
      unfolding ParseInt_unfold[OF False] Let_def unsigned_part_hd[OF False] by simp
  next
    case 2
    have m: "maxUint64 \<ge> 2 ^ 63" "maxUint64 > 2 ^ 63" by (simp_all add: maxUint64_def)
    with 2 show ?thesis
      unfolding ParseInt_unfold[OF False] Let_def unsigned_part_hd[OF False] by auto
  qed
qed

text \<open>
  C8, as amended.  \<open>intValueParser\<close> accepts exactly the signed decimal numerals whose
  value lies in the signed 64-bit range, and then stores that value in the \<open>int\<close>
  field with no error.  On a signed decimal numeral outside that range it fails with
  strconv's range error, on any other string with a conversion error of strconv; in
  both cases the field is left as it was.
\<close>

theorem intValueParser_decimal:
  "(signed_decimal s \<and> - (2 ^ 63) \<le> int_of_decimal s \<and> int_of_decimal s < 2 ^ 63 \<longrightarrow>
      intValueParser v s = (IntV (int_of_decimal s), None)) \<and>
   (signed_decimal s \<and> \<not> (- (2 ^ 63) \<le> int_of_decimal s \<and> int_of_decimal s < 2 ^ 63) \<longrightarrow>
      intValueParser v s = (v, Some (NumError ''ParseInt'' s ErrRange))) \<and>
   (\<not> signed_decimal s \<longrightarrow>
      (\<exists>k. intValueParser v s = (v, Some (NumError ''ParseInt'' s k))))"
proof (intro conjI impI)
  assume "signed_decimal s \<and> - (2 ^ 63) \<le> int_of_decimal s \<and> int_of_decimal s < 2 ^ 63"
  then show "intValueParser v s = (IntV (int_of_decimal s), None)"
    by (simp add: intValueParser_def ParseInt_decimal)
next
  assume "signed_decimal s \<and>
    \<not> (- (2 ^ 63) \<le> int_of_decimal s \<and> int_of_decimal s < 2 ^ 63)"
  then show "intValueParser v s = (v, Some (NumError ''ParseInt'' s ErrRange))"
    by (auto simp: intValueParser_def ParseInt_decimal)
next
  assume "\<not> signed_decimal s"
  from ParseInt_not_decimal[OF this] show
    "\<exists>k. intValueParser v s = (v, Some (NumError ''ParseInt'' s k))"
    by (auto simp: intValueParser_def)
qed


theorem intValueParser_decimal_witness:
  "signed_decimal ''-42'' \<and> int_of_decimal ''-42'' = - 42 \<and>
   intValueParser (IntV 0 :: unit rvalue) ''-42'' = (IntV (- 42), None) \<and>
   signed_decimal ''9223372036854775808'' \<and>
   intValueParser (IntV 7 :: unit rvalue) ''9223372036854775808'' =
     (IntV 7, Some (NumError ''ParseInt'' ''9223372036854775808'' ErrRange)) \<and>
   \<not> signed_decimal ''4x'' \<and>
   (\<exists>k. intValueParser (IntV 7 :: unit rvalue) ''4x'' =
     (IntV 7, Some (NumError ''ParseInt'' ''4x'' k)))"
  using intValueParser_decimal[of "''-42''" "IntV 0 :: unit rvalue"]
    intValueParser_decimal[of "''9223372036854775808''" "IntV 7 :: unit rvalue"]
    intValueParser_decimal[of "''4x''" "IntV 7 :: unit rvalue"]
  by (simp add: signed_decimal_def unsigned_part_def int_of_decimal_def is_digit_def
        digit_val_def)

text \<open>
  C8 as stated fails: the digit string \<open>9223372036854775808\<close> (\<open>2^63\<close>) is numeric,
  and the converter fails on it; the width is 64 bits.
\<close>

theorem intValueParser_range_counterexample:
  "list_all is_digit ''9223372036854775808'' \<and>
   intValueParser (IntV 7 :: unit rvalue) ''9223372036854775808'' =
     (IntV 7, Some (NumError ''ParseInt'' ''9223372036854775808'' ErrRange))"
  by (simp add: intValueParser_def ParseInt_def ParseUint_def is_digit_def digit_val_def
        maxUint64_def Let_def)

end
